theory Spec2Isabelle
  imports Main
begin

section \<open>The two-sector ctags cache of klaus (ctagscache.py)\<close>

subsection \<open>Files, collaborators and the cache object\<close>

text \<open>
  Tagsfiles live in temporary files. A path is the name \<open>tempfile.mkstemp\<close> hands out,
  a file is its bytes, and \<open>os.path.getsize\<close> is the length of those bytes.
\<close>

type_synonym path = nat
type_synonym bytes = string
type_synonym repo = string
type_synonym rev = string

text \<open>
  What a call can raise: the \<open>assert\<close> on the revision, a failure of tagsfile creation,
  and an I/O failure of gzip, of opening a file or of \<open>os.path.getsize\<close>.
\<close>

datatype error = AssertionError | CreationFailure | IOFailure

text \<open>
  The calls the cache makes on its lock and on its collaborators, in the order made.
\<close>

datatype call =
    Acquire
  | Release
  | Create repo rev
  | Compress path
  | Uncompress path
  | Delete path

text \<open>
  The behaviour of the outside world: what gzip writes for some bytes, what it reads back,
  and what the ctags run produces for a repository and revision. \<open>None\<close> is a failure.
\<close>

record env =
  gzip :: "bytes \<Rightarrow> bytes option"
  gunzip :: "bytes \<Rightarrow> bytes option"
  ctags :: "repo \<Rightarrow> rev \<Rightarrow> bytes option"

text \<open>
  A sector holds nodes (key, tagsfile path, size), least recently used first and most
  recently used last.
\<close>

type_synonym node = "rev \<times> path \<times> nat"

record state =
  uncompressed_max_bytes :: nat
  compressed_max_bytes :: nat
  uncompressed_cache :: "node list"
  compressed_cache :: "node list"
  clearing :: bool
  files :: "path \<rightharpoonup> bytes"
  next_tmp :: nat
  calls :: "call list"

definition CTagsCache :: "nat \<Rightarrow> nat \<Rightarrow> state" where
  "CTagsCache umax cmax =
     \<lparr>uncompressed_max_bytes = umax, compressed_max_bytes = cmax,
      uncompressed_cache = [], compressed_cache = [], clearing = False,
      files = Map.empty, next_tmp = 0, calls = []\<rparr>"

definition node_key :: "node \<Rightarrow> rev" where
  "node_key n = fst n"

definition node_path :: "node \<Rightarrow> path" where
  "node_path n = fst (snd n)"

definition node_size :: "node \<Rightarrow> nat" where
  "node_size n = snd (snd n)"

definition keys_of :: "node list \<Rightarrow> rev set" where
  "keys_of ns = set (map node_key ns)"

definition paths_of :: "node list \<Rightarrow> path set" where
  "paths_of ns = set (map node_path ns)"

text \<open>\<open>tempfile.mkstemp()\<close>: a new, empty file under a name never used before.\<close>

definition mkstemp :: "state \<Rightarrow> path \<times> state" where
  "mkstemp s =
     (next_tmp s, s\<lparr>files := (files s)(next_tmp s \<mapsto> []), next_tmp := Suc (next_tmp s)\<rparr>)"

definition record_call :: "call \<Rightarrow> state \<Rightarrow> state" where
  "record_call c s = s\<lparr>calls := calls s @ [c]\<rparr>"

text \<open>
  \<open>compress_tagsfile\<close>: the temporary file is made first, then the source is opened and
  copied through gzip. A failure leaves the temporary file behind.
\<close>

definition compress_tagsfile :: "env \<Rightarrow> path \<Rightarrow> state \<Rightarrow> state \<times> (error + path)" where
  "compress_tagsfile e p s0 =
     (let (cp, s1) = mkstemp (record_call (Compress p) s0) in
      case files s1 p of
        None \<Rightarrow> (s1, Inl IOFailure)
      | Some b \<Rightarrow>
          (case gzip e b of
             None \<Rightarrow> (s1, Inl IOFailure)
           | Some z \<Rightarrow> (s1\<lparr>files := (files s1)(cp \<mapsto> z)\<rparr>, Inr cp)))"

definition uncompress_tagsfile :: "env \<Rightarrow> path \<Rightarrow> state \<Rightarrow> state \<times> (error + path)" where
  "uncompress_tagsfile e cp s0 =
     (let (p, s1) = mkstemp (record_call (Uncompress cp) s0) in
      case files s1 cp of
        None \<Rightarrow> (s1, Inl IOFailure)
      | Some z \<Rightarrow>
          (case gunzip e z of
             None \<Rightarrow> (s1, Inl IOFailure)
           | Some b \<Rightarrow> (s1\<lparr>files := (files s1)(p \<mapsto> b)\<rparr>, Inr p)))"

text \<open>
  Modelled from the spec: \<open>klaus.ctags.create_tagsfile\<close> is imported by ctagscache.py and
  is not among the sources. The spec gives \<open>create_artifact(repository, revision) -> handle\<close>,
  slow and fallible, failing with \<open>CreationFailure\<close>; the handle is a path of a new file.
\<close>

definition create_tagsfile :: "env \<Rightarrow> repo \<Rightarrow> rev \<Rightarrow> state \<Rightarrow> state \<times> (error + path)" where
  "create_tagsfile e git_repo_path git_rev s0 =
     (let s = record_call (Create git_repo_path git_rev) s0 in
      case ctags e git_repo_path git_rev of
        None \<Rightarrow> (s, Inl CreationFailure)
      | Some b \<Rightarrow> (let (p, s1) = mkstemp s in (s1\<lparr>files := (files s1)(p \<mapsto> b)\<rparr>, Inr p)))"

text \<open>
  Modelled from the spec: \<open>klaus.ctags.delete_tagsfile\<close> is imported by ctagscache.py and
  is not among the sources. The spec gives \<open>destroy_artifact(handle)\<close>, best-effort and
  non-failing from the cache's perspective.
\<close>

definition delete_tagsfile :: "path \<Rightarrow> state \<Rightarrow> state" where
  "delete_tagsfile p s = (record_call (Delete p) s)\<lparr>files := (files s)(p := None)\<rparr>"

subsection \<open>The size-bounded LRU sector\<close>

text \<open>
  Modelled from the spec: \<open>dulwich.lru_cache.LRUSizeCache\<close> is imported by ctagscache.py
  and is not among the sources. The spec (4.1) gives \<open>current_bytes\<close> as the sum of the
  member entry sizes.
\<close>

definition total_size :: "node list \<Rightarrow> nat" where
  "total_size ns = sum_list (map node_size ns)"

text \<open>
  Modelled from the spec: \<open>LRUSizeCache.__contains__\<close> is not among the sources. The spec
  gives \<open>contains(key) -> bool\<close>, a membership test that does not affect ordering.
\<close>

definition lru_contains :: "rev \<Rightarrow> node list \<Rightarrow> bool" where
  "lru_contains k ns = (map_of ns k \<noteq> None)"

text \<open>
  Modelled from the spec: \<open>LRUSizeCache.__getitem__\<close> is not among the sources. The spec
  gives \<open>get(key) -> value\<close>: returns the value if present and marks it most recently
  used. \<open>lru_value\<close> is the value returned, \<open>lru_touch\<close> the reordering.
\<close>

definition lru_value :: "rev \<Rightarrow> node list \<Rightarrow> path option" where
  "lru_value k ns = map_option fst (map_of ns k)"

definition lru_touch :: "rev \<Rightarrow> node list \<Rightarrow> node list" where
  "lru_touch k ns = filter (\<lambda>n. node_key n \<noteq> k) ns @ filter (\<lambda>n. node_key n = k) ns"

text \<open>
  Modelled from the spec: \<open>LRUSizeCache._remove_node\<close> is not among the sources. The spec
  gives \<open>remove(key)\<close>: removes an entry without invoking its eviction callback.
\<close>

definition lru_remove :: "rev \<Rightarrow> node list \<Rightarrow> node list" where
  "lru_remove k ns = filter (\<lambda>n. node_key n \<noteq> k) ns"

text \<open>
  Modelled from the spec: the first half of \<open>LRUSizeCache.add\<close>, which is not among the
  sources. The spec gives \<open>insert(key, value, size, on_evict)\<close>: adds or replaces an entry
  and marks it most recently used; the size is computed from the handle at insertion time.
\<close>

definition lru_insert :: "rev \<Rightarrow> path \<Rightarrow> nat \<Rightarrow> node list \<Rightarrow> node list" where
  "lru_insert k p sz ns = filter (\<lambda>n. node_key n \<noteq> k) ns @ [(k, p, sz)]"

subsection \<open>Eviction callbacks and insertion into the two sectors\<close>

text \<open>\<open>_clear_compressed_entry\<close>: the evictee leaves the cache entirely.\<close>

definition clear_compressed_entry :: "rev \<Rightarrow> path \<Rightarrow> state \<Rightarrow> state" where
  "clear_compressed_entry git_rev compressed_tagsfile_path s =
     delete_tagsfile compressed_tagsfile_path s"

text \<open>
  Modelled from the spec: the second half of \<open>LRUSizeCache.add\<close>, not among the sources,
  for the compressed sector. The spec: after the insertion, least recently used entries
  are evicted, \<open>on_evict(key, value)\<close> invoked for each, until
  \<open>current_bytes \<le> capacity_bytes\<close>; the newly inserted entry (the last of the list) is
  never evicted by its own insertion. The list argument is the sector as the loop sees it.
\<close>

fun evict_compressed :: "node list \<Rightarrow> state \<Rightarrow> state" where
  "evict_compressed [] s = s"
| "evict_compressed [n] s = s"
| "evict_compressed (n # m # ns) s =
     (if total_size (n # m # ns) \<le> compressed_max_bytes s then s
      else evict_compressed (m # ns)
             (clear_compressed_entry (node_key n) (node_path n)
                (s\<lparr>compressed_cache := m # ns\<rparr>)))"

text \<open>
  Modelled from the spec: \<open>LRUSizeCache.add\<close> as a whole, not among the sources, as
  line 149 calls it: \<open>self._compressed_cache.add(git_rev, path,
  self._clear_compressed_entry)\<close>. The size is computed from the handle at insertion time,
  here by \<open>os.path.getsize\<close> (line 92), which raises for a missing file; then the entry
  is inserted and the eviction loop runs.
\<close>

definition compressed_add :: "rev \<Rightarrow> path \<Rightarrow> state \<Rightarrow> state \<times> error option" where
  "compressed_add k p s =
     (case files s p of
        None \<Rightarrow> (s, Some IOFailure)
      | Some b \<Rightarrow>
          (let ns = lru_insert k p (length b) (compressed_cache s)
           in (evict_compressed ns (s\<lparr>compressed_cache := ns\<rparr>), None)))"

text \<open>
  \<open>_clear_uncompressed_entry\<close>: unless the whole cache is being cleared, the evictee is
  compressed and put into the compressed sector; then the uncompressed file is deleted.
  An exception of the compression or of the insertion skips the deletion.
\<close>

definition clear_uncompressed_entry ::
  "env \<Rightarrow> rev \<Rightarrow> path \<Rightarrow> state \<Rightarrow> state \<times> error option" where
  "clear_uncompressed_entry e git_rev uncompressed_tagsfile_path s =
     (if \<not> clearing s then
        (case compress_tagsfile e uncompressed_tagsfile_path s of
           (s1, Inl err) \<Rightarrow> (s1, Some err)
         | (s1, Inr cp) \<Rightarrow>
             (case compressed_add git_rev cp s1 of
                (s2, Some err) \<Rightarrow> (s2, Some err)
              | (s2, None) \<Rightarrow> (delete_tagsfile uncompressed_tagsfile_path s2, None)))
      else (delete_tagsfile uncompressed_tagsfile_path s, None))"

text \<open>
  Modelled from the spec: the second half of \<open>LRUSizeCache.add\<close>, not among the sources,
  for the uncompressed sector, whose callback can raise. The spec names no order between
  taking the evictee out of the sector and invoking its callback; here the evictee has
  left the sector when the callback runs (the spec's alternative of returning the victims
  to the caller does the same), so an exception leaves the loop with the evictee gone.
\<close>

fun evict_uncompressed :: "env \<Rightarrow> node list \<Rightarrow> state \<Rightarrow> state \<times> error option" where
  "evict_uncompressed e [] s = (s, None)"
| "evict_uncompressed e [n] s = (s, None)"
| "evict_uncompressed e (n # m # ns) s =
     (if total_size (n # m # ns) \<le> uncompressed_max_bytes s then (s, None)
      else
        (case clear_uncompressed_entry e (node_key n) (node_path n)
                (s\<lparr>uncompressed_cache := m # ns\<rparr>) of
           (s1, Some err) \<Rightarrow> (s1, Some err)
         | (s1, None) \<Rightarrow> evict_uncompressed e (m # ns) s1))"

text \<open>
  Modelled from the spec: \<open>LRUSizeCache.add\<close> as a whole, not among the sources, as
  lines 133 and 134 call it: \<open>self._uncompressed_cache.add(git_rev, path,
  self._clear_uncompressed_entry)\<close>, with the size by \<open>os.path.getsize\<close> (line 91).
\<close>

definition uncompressed_add :: "env \<Rightarrow> rev \<Rightarrow> path \<Rightarrow> state \<Rightarrow> state \<times> error option" where
  "uncompressed_add e k p s =
     (case files s p of
        None \<Rightarrow> (s, Some IOFailure)
      | Some b \<Rightarrow>
          (let ns = lru_insert k p (length b) (uncompressed_cache s)
           in evict_uncompressed e ns (s\<lparr>uncompressed_cache := ns\<rparr>)))"

subsection \<open>The public operations\<close>

text \<open>\<open>with self._lock:\<close> takes the lock, runs the block, and releases on every exit.\<close>

definition with_lock :: "(state \<Rightarrow> state \<times> 'a) \<Rightarrow> state \<Rightarrow> state \<times> 'a" where
  "with_lock block s =
     (let (s1, r) = block (record_call Acquire s) in (record_call Release s1, r))"

text \<open>The block of \<open>get_tagsfile\<close> that runs under the lock (lines 123 to 135).\<close>

definition get_tagsfile_locked ::
  "env \<Rightarrow> repo \<Rightarrow> rev \<Rightarrow> state \<Rightarrow> state \<times> (error + path)" where
  "get_tagsfile_locked e git_repo_path git_rev s =
     (if lru_contains git_rev (uncompressed_cache s) then
        (s\<lparr>uncompressed_cache := lru_touch git_rev (uncompressed_cache s)\<rparr>,
         Inr (the (lru_value git_rev (uncompressed_cache s))))
      else if lru_contains git_rev (compressed_cache s) then
        (let compressed_tagsfile_path = the (lru_value git_rev (compressed_cache s));
             s1 = s\<lparr>compressed_cache := lru_touch git_rev (compressed_cache s)\<rparr>
         in case uncompress_tagsfile e compressed_tagsfile_path s1 of
              (s2, Inl err) \<Rightarrow> (s2, Inl err)
            | (s2, Inr uncompressed_tagsfile_path) \<Rightarrow>
                (let s3 = s2\<lparr>compressed_cache := lru_remove git_rev (compressed_cache s2)\<rparr>
                 in case uncompressed_add e git_rev uncompressed_tagsfile_path s3 of
                      (s4, Some err) \<Rightarrow> (s4, Inl err)
                    | (s4, None) \<Rightarrow> (s4, Inr uncompressed_tagsfile_path)))
      else
        (case create_tagsfile e git_repo_path git_rev s of
           (s2, Inl err) \<Rightarrow> (s2, Inl err)
         | (s2, Inr uncompressed_tagsfile_path) \<Rightarrow>
             (case uncompressed_add e git_rev uncompressed_tagsfile_path s2 of
                (s4, Some err) \<Rightarrow> (s4, Inl err)
              | (s4, None) \<Rightarrow> (s4, Inr uncompressed_tagsfile_path))))"

definition get_tagsfile :: "env \<Rightarrow> repo \<Rightarrow> rev \<Rightarrow> state \<Rightarrow> state \<times> (error + path)" where
  "get_tagsfile e git_repo_path git_rev s =
     (if length git_rev \<noteq> 40 then (s, Inl AssertionError)
      else with_lock (get_tagsfile_locked e git_repo_path git_rev) s)"

text \<open>
  Modelled from the spec: \<open>LRUSizeCache.clear\<close> is not among the sources. The spec gives
  \<open>clear\<close>: removes all entries, each entry's eviction callback firing as if the entry
  were evicted (the source passes no suppression flag; its callback reads
  \<open>self._clearing\<close> instead).
\<close>

fun clear_uncompressed_cache :: "env \<Rightarrow> node list \<Rightarrow> state \<Rightarrow> state \<times> error option" where
  "clear_uncompressed_cache e [] s = (s, None)"
| "clear_uncompressed_cache e (n # ns) s =
     (case clear_uncompressed_entry e (node_key n) (node_path n)
             (s\<lparr>uncompressed_cache := ns\<rparr>) of
        (s1, Some err) \<Rightarrow> (s1, Some err)
      | (s1, None) \<Rightarrow> clear_uncompressed_cache e ns s1)"

fun clear_compressed_cache :: "node list \<Rightarrow> state \<Rightarrow> state" where
  "clear_compressed_cache [] s = s"
| "clear_compressed_cache (n # ns) s =
     clear_compressed_cache ns
       (clear_compressed_entry (node_key n) (node_path n) (s\<lparr>compressed_cache := ns\<rparr>))"

text \<open>\<open>clear\<close> (lines 99 to 106). There is no \<open>with self._lock\<close> in it.\<close>

definition clear :: "env \<Rightarrow> state \<Rightarrow> state \<times> error option" where
  "clear e s =
     (let s1 = s\<lparr>clearing := True\<rparr> in
      case clear_uncompressed_cache e (uncompressed_cache s1) s1 of
        (s2, Some err) \<Rightarrow> (s2, Some err)
      | (s2, None) \<Rightarrow>
          (let s3 = clear_compressed_cache (compressed_cache s2) s2
           in (s3\<lparr>clearing := False\<rparr>, None)))"

subsection \<open>Notions used in the statements\<close>

text \<open>
  A sector is within its capacity when its entries sum to at most the capacity, or when
  it holds a single entry that is larger than the capacity by itself.
\<close>

definition within_capacity :: "nat \<Rightarrow> node list \<Rightarrow> bool" where
  "within_capacity cap ns = (total_size ns \<le> cap \<or> (\<exists>n. ns = [n] \<and> cap < node_size n))"

text \<open>
  The calls an insertion into the uncompressed sector can make: compression and deletion
  of the evictees \<open>V\<close>, and deletion of compressed files, which are those of the
  compressed sector \<open>C\<close> or newer than \<open>f\<close>.
\<close>

definition eviction_calls :: "path set \<Rightarrow> path set \<Rightarrow> nat \<Rightarrow> call set" where
  "eviction_calls V C f = Compress ` V \<union> Delete ` (V \<union> C \<union> {q. f \<le> q})"


text \<open>
  Sequences of calls on one cache object: each call has its own outside world, and the
  state it leaves is the state the next call finds.
\<close>

datatype operation = Get_tagsfile env repo rev | Clear env

fun perform :: "operation \<Rightarrow> state \<Rightarrow> state" where
  "perform (Get_tagsfile e g k) s = fst (get_tagsfile e g k s)"
| "perform (Clear e) s = fst (clear e s)"

fun run :: "operation list \<Rightarrow> state \<Rightarrow> state" where
  "run [] s = s"
| "run (x # xs) s = run xs (perform x s)"

text \<open>
  The uncompressed sector holds each key once, and no key of it is in the compressed sector.
\<close>

definition disjoint_sectors :: "state \<Rightarrow> bool" where
  "disjoint_sectors s =
     (distinct (map node_key (uncompressed_cache s)) \<and>
      keys_of (uncompressed_cache s) \<inter> keys_of (compressed_cache s) = {})"

text \<open>
  A sample outside world for concrete runs: gzip adds a two-byte header, and the tagsfile
  of a repository is the repository's path, so its size can be chosen freely.
\<close>

definition demo_env :: env where
  "demo_env =
     \<lparr>gzip = (\<lambda>b. Some (''gz'' @ b)),
      gunzip = (\<lambda>z. if take 2 z = ''gz'' then Some (drop 2 z) else None),
      ctags = (\<lambda>g k. if g = [] then None else Some g)\<rparr>"

text \<open>A revision of 40 equal characters.\<close>

definition rev_of :: "char \<Rightarrow> rev" where
  "rev_of c = replicate 40 c"

text \<open>
  The spec's format of a revision identifier: a fully resolved content identifier of
  40 hexadecimal characters.
\<close>

definition full_sha :: "rev \<Rightarrow> bool" where
  "full_sha k = (length k = 40 \<and> list_all (\<lambda>c. c \<in> set ''0123456789abcdefABCDEF'') k)"

text \<open>
  A sequence of \<open>get_tagsfile\<close> calls, with what each call returned or raised.
\<close>

fun get_all :: "(env \<times> repo \<times> rev) list \<Rightarrow> state \<Rightarrow> state \<times> (error + path) list" where
  "get_all [] s = (s, [])"
| "get_all ((e, g, k) # xs) s =
     (let (s1, r) = get_tagsfile e g k s; (s2, rs) = get_all xs s1 in (s2, r # rs))"

text \<open>Both sectors are within their capacities.\<close>

definition capacity_respected :: "state \<Rightarrow> bool" where
  "capacity_respected s =
     (within_capacity (uncompressed_max_bytes s) (uncompressed_cache s) \<and>
      within_capacity (compressed_max_bytes s) (compressed_cache s))"

text \<open>The same outside world with a full disk: gzip cannot write.\<close>

definition disk_full_env :: env where
  "disk_full_env = demo_env\<lparr>gzip := (\<lambda>b. None)\<rparr>"

text \<open>
  The scenario of the spec: a tagsfile A of 6 bytes, then B of 6 bytes, then A again, with
  10 bytes of uncompressed capacity.
\<close>

definition ab_requests :: "(env \<times> repo \<times> rev) list" where
  "ab_requests =
     [(demo_env, ''aaaaaa'', rev_of CHR ''a''), (demo_env, ''bbbbbb'', rev_of CHR ''b''),
      (demo_env, ''aaaaaa'', rev_of CHR ''a'')]"

text \<open>
  Tagsfiles of 1, 9 and 5 bytes; the disk is full when the third is inserted, and the third
  is then requested again.
\<close>

definition failing_requests :: "(env \<times> repo \<times> rev) list" where
  "failing_requests =
     [(demo_env, ''a'', rev_of CHR ''a''), (demo_env, ''bbbbbbbbb'', rev_of CHR ''b''),
      (disk_full_env, ''ccccc'', rev_of CHR ''c''), (demo_env, ''ccccc'', rev_of CHR ''c'')]"

text \<open>A new cache of 10 and 100 bytes beside two files of 12 and 3 bytes.\<close>

definition two_files :: state where
  "two_files = (CTagsCache 10 100)\<lparr>files := [0 \<mapsto> ''aaaaaaaaaaaa'', 1 \<mapsto> ''bbb''], next_tmp := 2\<rparr>"

text \<open>
  The tagsfile names held by the two sectors were all handed out before: the next
  temporary name is none of them.
\<close>

definition names_in_use_are_old :: "state \<Rightarrow> bool" where
  "names_in_use_are_old s =
     (\<forall>q \<in> paths_of (uncompressed_cache s) \<union> paths_of (compressed_cache s). q < next_tmp s)"

text \<open>What holds of a cache between two calls.\<close>

definition consistent :: "state \<Rightarrow> bool" where
  "consistent s = (disjoint_sectors s \<and> names_in_use_are_old s \<and> \<not> clearing s)"

text \<open>The first two calls of the scenario, as operations.\<close>

definition ab_operations :: "operation list" where
  "ab_operations =
     [Get_tagsfile demo_env ''aaaaaa'' (rev_of CHR ''a''),
      Get_tagsfile demo_env ''bbbbbb'' (rev_of CHR ''b'')]"

text \<open>No two entries of the cache hold the same file.\<close>

definition separate_files :: "node list \<Rightarrow> node list \<Rightarrow> bool" where
  "separate_files xs ys =
     (distinct (map node_path xs) \<and> distinct (map node_path ys) \<and> paths_of xs \<inter> paths_of ys = {})"

definition one_file_per_entry :: "state \<Rightarrow> bool" where
  "one_file_per_entry s = separate_files (uncompressed_cache s) (compressed_cache s)"



text \<open>
  The calls one operation made, and the sign of a compression that raised: the compression
  is the last call before the release, since a compression that returns is always followed
  by the deletion of the file it compressed (lines 149 to 151).
\<close>

definition new_calls :: "state \<Rightarrow> state \<Rightarrow> call list" where
  "new_calls s s' = drop (length (calls s)) (calls s')"

definition aborted_compression :: "call list \<Rightarrow> path option" where
  "aborted_compression evs =
     (case rev evs of Release # Compress q # _ \<Rightarrow> Some q | _ \<Rightarrow> None)"

text \<open>No call of the sequence was interrupted by a compression that raised.\<close>

fun no_aborted_compression :: "(env \<times> repo \<times> rev) list \<Rightarrow> state \<Rightarrow> bool" where
  "no_aborted_compression [] s = True"
| "no_aborted_compression ((e, g, k) # xs) s =
     (aborted_compression (new_calls s (fst (get_tagsfile e g k s))) = None \<and>
      no_aborted_compression xs (fst (get_tagsfile e g k s)))"

text \<open>
  The scenario again, but the compressed file of A cannot be read when A is requested
  the second time; B is then requested.
\<close>

definition unreadable_requests :: "(env \<times> repo \<times> rev) list" where
  "unreadable_requests =
     [(demo_env, ''aaaaaa'', rev_of CHR ''a''), (demo_env, ''bbbbbb'', rev_of CHR ''b''),
      (demo_env\<lparr>gunzip := (\<lambda>z. None)\<rparr>, ''aaaaaa'', rev_of CHR ''a''),
      (demo_env, ''bbbbbb'', rev_of CHR ''b'')]"

text \<open>
  What holds of the uncompressed sector \<open>ns\<close> and the rest of the cache while entries are
  evicted from it, and of a whole cache between two calls: every entry has its own file
  and its own key, and the names in use are old.
\<close>

definition loop_inv :: "node list \<Rightarrow> state \<Rightarrow> bool" where
  "loop_inv ns s =
     (uncompressed_cache s = ns \<and> separate_files ns (compressed_cache s) \<and>
      (\<forall>q \<in> paths_of ns \<union> paths_of (compressed_cache s). q < next_tmp s) \<and>
      distinct (map node_key ns) \<and> distinct (map node_key (compressed_cache s)) \<and>
      keys_of ns \<inter> keys_of (compressed_cache s) = {})"

definition well_formed :: "state \<Rightarrow> bool" where
  "well_formed s = (loop_inv (uncompressed_cache s) s \<and> \<not> clearing s)"

section \<open>Lemmas about the sectors and the eviction loops\<close>

lemma keys_of_simps [simp]:
  "keys_of [] = {}"
  "keys_of (n # ns) = insert (node_key n) (keys_of ns)"
  "keys_of (ns @ ms) = keys_of ns \<union> keys_of ms"
  by (auto simp: keys_of_def)

lemma paths_of_simps [simp]:
  "paths_of [] = {}"
  "paths_of (n # ns) = insert (node_path n) (paths_of ns)"
  "paths_of (ns @ ms) = paths_of ns \<union> paths_of ms"
  by (auto simp: paths_of_def)

lemma total_size_simps [simp]:
  "total_size [] = 0"
  "total_size (n # ns) = node_size n + total_size ns"
  "total_size (ns @ ms) = total_size ns + total_size ms"
  by (auto simp: total_size_def)

lemma delete_tagsfile_simps [simp]:
  "uncompressed_cache (delete_tagsfile p s) = uncompressed_cache s"
  "compressed_cache (delete_tagsfile p s) = compressed_cache s"
  "uncompressed_max_bytes (delete_tagsfile p s) = uncompressed_max_bytes s"
  "compressed_max_bytes (delete_tagsfile p s) = compressed_max_bytes s"
  "clearing (delete_tagsfile p s) = clearing s"
  "next_tmp (delete_tagsfile p s) = next_tmp s"
  "files (delete_tagsfile p s) = (files s)(p := None)"
  "calls (delete_tagsfile p s) = calls s @ [Delete p]"
  by (simp_all add: delete_tagsfile_def record_call_def)

lemma evict_compressed_frame:
  "uncompressed_cache (evict_compressed ns s) = uncompressed_cache s \<and>
   uncompressed_max_bytes (evict_compressed ns s) = uncompressed_max_bytes s \<and>
   compressed_max_bytes (evict_compressed ns s) = compressed_max_bytes s \<and>
   clearing (evict_compressed ns s) = clearing s \<and>
   next_tmp (evict_compressed ns s) = next_tmp s"
  by (induction ns s rule: evict_compressed.induct) (simp_all add: clear_compressed_entry_def)

lemma evict_compressed_suffix:
  "compressed_cache s = ns \<Longrightarrow>
   \<exists>pre. ns = pre @ compressed_cache (evict_compressed ns s) \<and>
     (ns \<noteq> [] \<longrightarrow> compressed_cache (evict_compressed ns s) \<noteq> [])"
proof (induction ns s rule: evict_compressed.induct)
  case (3 n m ns s)
  show ?case
  proof (cases "total_size (n # m # ns) \<le> compressed_max_bytes s")
    case True
    with 3 show ?thesis by simp
  next
    case False
    let ?s1 = "clear_compressed_entry (node_key n) (node_path n) (s\<lparr>compressed_cache := m # ns\<rparr>)"
    let ?r = "compressed_cache (evict_compressed (m # ns) ?s1)"
    have step: "evict_compressed (n # m # ns) s = evict_compressed (m # ns) ?s1"
      using False by simp
    have "compressed_cache ?s1 = m # ns" by (simp add: clear_compressed_entry_def)
    from 3(1)[OF False this] obtain pre where pre: "m # ns = pre @ ?r" "?r \<noteq> []" by auto
    from pre(1) have "n # m # ns = (n # pre) @ ?r" by simp
    with pre(2) show ?thesis unfolding step by blast
  qed
qed simp_all

lemma evict_compressed_within:
  "compressed_cache s = ns \<Longrightarrow> ns \<noteq> [] \<Longrightarrow>
   within_capacity (compressed_max_bytes s) (compressed_cache (evict_compressed ns s))"
proof (induction ns s rule: evict_compressed.induct)
  case (3 n m ns s)
  show ?case
  proof (cases "total_size (n # m # ns) \<le> compressed_max_bytes s")
    case True
    with 3 show ?thesis by (simp add: within_capacity_def)
  next
    case False
    let ?s1 = "clear_compressed_entry (node_key n) (node_path n) (s\<lparr>compressed_cache := m # ns\<rparr>)"
    have "compressed_cache ?s1 = m # ns" "compressed_max_bytes ?s1 = compressed_max_bytes s"
      by (simp_all add: clear_compressed_entry_def)
    with 3(1)[OF False] False show ?thesis by simp
  qed
qed (auto simp: within_capacity_def)

lemma evict_compressed_files:
  "q \<notin> paths_of ns \<Longrightarrow> files (evict_compressed ns s) q = files s q"
  by (induction ns s rule: evict_compressed.induct) (simp_all add: clear_compressed_entry_def)

lemma evict_compressed_calls:
  "\<exists>evs. calls (evict_compressed ns s) = calls s @ evs \<and> set evs \<subseteq> Delete ` paths_of ns"
proof (induction ns s rule: evict_compressed.induct)
  case (3 n m ns s)
  show ?case
  proof (cases "total_size (n # m # ns) \<le> compressed_max_bytes s")
    case True
    then show ?thesis by simp
  next
    case False
    let ?s1 = "clear_compressed_entry (node_key n) (node_path n) (s\<lparr>compressed_cache := m # ns\<rparr>)"
    from 3[OF False] obtain evs where
      "calls (evict_compressed (m # ns) ?s1) = calls ?s1 @ evs" "set evs \<subseteq> Delete ` paths_of (m # ns)"
      by blast
    then have "calls (evict_compressed (n # m # ns) s) = calls s @ (Delete (node_path n) # evs)"
      "set (Delete (node_path n) # evs) \<subseteq> Delete ` paths_of (n # m # ns)"
      using False by (auto simp: clear_compressed_entry_def)
    then show ?thesis by blast
  qed
qed simp_all


lemma lru_insert_sets:
  "keys_of (lru_insert k p sz ns) \<subseteq> insert k (keys_of ns)"
  "paths_of (lru_insert k p sz ns) \<subseteq> insert p (paths_of ns)"
  "lru_insert k p sz ns \<noteq> []"
  by (auto simp: lru_insert_def keys_of_def paths_of_def node_key_def node_path_def)

lemma suffix_sets:
  "ns = pre @ rest \<Longrightarrow> keys_of rest \<subseteq> keys_of ns \<and> paths_of rest \<subseteq> paths_of ns"
  by auto

lemma compressed_add_frame:
  "uncompressed_cache (fst (compressed_add k p s)) = uncompressed_cache s \<and>
   uncompressed_max_bytes (fst (compressed_add k p s)) = uncompressed_max_bytes s \<and>
   compressed_max_bytes (fst (compressed_add k p s)) = compressed_max_bytes s \<and>
   clearing (fst (compressed_add k p s)) = clearing s \<and>
   next_tmp (fst (compressed_add k p s)) = next_tmp s"
  by (simp add: compressed_add_def Let_def evict_compressed_frame split: option.splits)

lemma compressed_add_sets:
  "keys_of (compressed_cache (fst (compressed_add k p s))) \<subseteq> insert k (keys_of (compressed_cache s)) \<and>
   paths_of (compressed_cache (fst (compressed_add k p s))) \<subseteq> insert p (paths_of (compressed_cache s))"
proof (cases "files s p")
  case None
  then show ?thesis by (auto simp: compressed_add_def)
next
  case (Some b)
  let ?ns = "lru_insert k p (length b) (compressed_cache s)"
  let ?s0 = "s\<lparr>compressed_cache := ?ns\<rparr>"
  have fst: "fst (compressed_add k p s) = evict_compressed ?ns ?s0"
    using Some by (simp add: compressed_add_def Let_def)
  have "compressed_cache ?s0 = ?ns" by simp
  from evict_compressed_suffix[OF this] obtain pre where
    "?ns = pre @ compressed_cache (evict_compressed ?ns ?s0)" by blast
  from suffix_sets[OF this] lru_insert_sets(1,2)[of k p "length b" "compressed_cache s"]
  show ?thesis unfolding fst by blast
qed

lemma compressed_add_within:
  assumes "within_capacity (compressed_max_bytes s) (compressed_cache s)"
  shows "within_capacity (compressed_max_bytes s) (compressed_cache (fst (compressed_add k p s)))"
proof (cases "files s p")
  case None
  with assms show ?thesis by (simp add: compressed_add_def)
next
  case (Some b)
  let ?ns = "lru_insert k p (length b) (compressed_cache s)"
  let ?s0 = "s\<lparr>compressed_cache := ?ns\<rparr>"
  have fst: "fst (compressed_add k p s) = evict_compressed ?ns ?s0"
    using Some by (simp add: compressed_add_def Let_def)
  have "compressed_cache ?s0 = ?ns" by simp
  from evict_compressed_within[OF this lru_insert_sets(3)]
  show ?thesis unfolding fst by simp
qed

lemma compressed_add_files:
  "q \<notin> paths_of (compressed_cache s) \<Longrightarrow> q \<noteq> p \<Longrightarrow>
   files (fst (compressed_add k p s)) q = files s q"
  using lru_insert_sets(2)[of k p _ "compressed_cache s"]
  by (auto simp: compressed_add_def Let_def evict_compressed_files split: option.splits
      intro!: trans[OF evict_compressed_files])

lemma compressed_add_calls:
  "\<exists>evs. calls (fst (compressed_add k p s)) = calls s @ evs \<and>
     set evs \<subseteq> Delete ` insert p (paths_of (compressed_cache s))"
proof (cases "files s p")
  case None
  then show ?thesis by (simp add: compressed_add_def)
next
  case (Some b)
  let ?ns = "lru_insert k p (length b) (compressed_cache s)"
  let ?s0 = "s\<lparr>compressed_cache := ?ns\<rparr>"
  have fst: "fst (compressed_add k p s) = evict_compressed ?ns ?s0"
    using Some by (simp add: compressed_add_def Let_def)
  from evict_compressed_calls[of ?ns ?s0] obtain evs where
    "calls (evict_compressed ?ns ?s0) = calls s @ evs" "set evs \<subseteq> Delete ` paths_of ?ns"
    by auto
  with lru_insert_sets(2)[of k p "length b" "compressed_cache s"]
  show ?thesis unfolding fst by blast
qed

lemma compressed_add_ok:
  "files s p \<noteq> None \<Longrightarrow> snd (compressed_add k p s) = None"
  by (auto simp: compressed_add_def Let_def)

lemma compress_tagsfile_cases:
  assumes "compress_tagsfile e p s = (s1, r)"
  shows "uncompressed_cache s1 = uncompressed_cache s"
    and "compressed_cache s1 = compressed_cache s"
    and "uncompressed_max_bytes s1 = uncompressed_max_bytes s"
    and "compressed_max_bytes s1 = compressed_max_bytes s"
    and "clearing s1 = clearing s"
    and "next_tmp s1 = Suc (next_tmp s)"
    and "calls s1 = calls s @ [Compress p]"
    and "\<forall>q. q \<noteq> next_tmp s \<longrightarrow> files s1 q = files s q"
    and "\<forall>cp. r = Inr cp \<longrightarrow> cp = next_tmp s \<and> files s1 cp \<noteq> None"
    and "\<forall>err. r = Inl err \<longrightarrow> err = IOFailure"
  using assms
  by (auto simp: compress_tagsfile_def mkstemp_def record_call_def split: option.splits)


lemma eviction_calls_mono:
  "V \<subseteq> V' \<Longrightarrow> C \<subseteq> C' \<union> {q. f' \<le> q} \<Longrightarrow> f' \<le> f \<Longrightarrow>
   eviction_calls V C f \<subseteq> eviction_calls V' C' f'"
  by (auto simp: eviction_calls_def)

lemma clear_uncompressed_entry_cases:
  assumes "clear_uncompressed_entry e k p s = (s', r)"
  obtains (cleared) "clearing s" "s' = delete_tagsfile p s" "r = None"
  | (failed) s1 err where "\<not> clearing s" "compress_tagsfile e p s = (s1, Inl err)"
      "s' = s1" "r = Some err"
  | (demoted) s1 cp where "\<not> clearing s" "compress_tagsfile e p s = (s1, Inr cp)"
      "s' = delete_tagsfile p (fst (compressed_add k cp s1))" "r = None"
proof (cases "clearing s")
  case True
  with assms cleared show ?thesis by (simp add: clear_uncompressed_entry_def)
next
  case False
  obtain s1 r1 where c: "compress_tagsfile e p s = (s1, r1)" by (cases "compress_tagsfile e p s")
  show ?thesis
  proof (cases r1)
    case (Inl err)
    with assms False c failed show ?thesis by (simp add: clear_uncompressed_entry_def)
  next
    case (Inr cp)
    from compress_tagsfile_cases(9)[OF c] Inr have "files s1 cp \<noteq> None" by blast
    from compressed_add_ok[OF this] have "snd (compressed_add k cp s1) = None" .
    then obtain s2 where "compressed_add k cp s1 = (s2, None)" by (cases "compressed_add k cp s1") auto
    with assms False c Inr demoted show ?thesis by (simp add: clear_uncompressed_entry_def)
  qed
qed

lemma clear_uncompressed_entry_frame:
  assumes "clear_uncompressed_entry e k p s = (s', r)"
  shows "uncompressed_cache s' = uncompressed_cache s"
    and "uncompressed_max_bytes s' = uncompressed_max_bytes s"
    and "compressed_max_bytes s' = compressed_max_bytes s"
    and "clearing s' = clearing s"
    and "next_tmp s \<le> next_tmp s'"
  using assms
  by (cases rule: clear_uncompressed_entry_cases;
      simp add: compress_tagsfile_cases compressed_add_frame)+

lemma clear_uncompressed_entry_sets:
  assumes "clear_uncompressed_entry e k p s = (s', r)"
  shows "keys_of (compressed_cache s') \<subseteq> insert k (keys_of (compressed_cache s)) \<and>
         paths_of (compressed_cache s') \<subseteq> insert (next_tmp s) (paths_of (compressed_cache s))"
  using assms
proof (cases rule: clear_uncompressed_entry_cases)
  case (demoted s1 cp)
  from compress_tagsfile_cases(2,9)[OF demoted(2)] compressed_add_sets[of k cp s1] demoted(3)
  show ?thesis by auto
qed (auto simp: compress_tagsfile_cases)

lemma clear_uncompressed_entry_within:
  assumes "clear_uncompressed_entry e k p s = (s', r)"
    and "within_capacity (compressed_max_bytes s) (compressed_cache s)"
  shows "within_capacity (compressed_max_bytes s) (compressed_cache s')"
  using assms(1)
proof (cases rule: clear_uncompressed_entry_cases)
  case (demoted s1 cp)
  from compress_tagsfile_cases(2,4)[OF demoted(2)] assms(2)
  have "within_capacity (compressed_max_bytes s1) (compressed_cache s1)"
    "compressed_max_bytes s1 = compressed_max_bytes s" by simp_all
  with compressed_add_within[of s1 k cp] demoted(3) show ?thesis by simp
qed (use assms(2) in \<open>auto simp: compress_tagsfile_cases\<close>)

lemma clear_uncompressed_entry_files:
  assumes "clear_uncompressed_entry e k p s = (s', r)"
    and "q < next_tmp s" "q \<notin> paths_of (compressed_cache s)" "q \<noteq> p"
  shows "files s' q = files s q"
  using assms(1)
proof (cases rule: clear_uncompressed_entry_cases)
  case (demoted s1 cp)
  from compress_tagsfile_cases(2,8,9)[OF demoted(2)] assms(2,3)
  have "files s1 q = files s q" "q \<notin> paths_of (compressed_cache s1)" "q \<noteq> cp" by auto
  with compressed_add_files[of q s1 cp k] demoted(3) assms(4) show ?thesis by simp
next
  case (failed s1 err)
  from compress_tagsfile_cases(8)[OF failed(2)] assms(2) failed(3) show ?thesis by simp
qed (use assms(4) in auto)

lemma clear_uncompressed_entry_calls:
  assumes "clear_uncompressed_entry e k p s = (s', r)"
  shows "\<exists>evs. calls s' = calls s @ evs \<and>
           set evs \<subseteq> eviction_calls {p} (paths_of (compressed_cache s)) (next_tmp s) \<and>
           (\<not> clearing s \<longrightarrow> Compress p \<in> set evs)"
  using assms
proof (cases rule: clear_uncompressed_entry_cases)
  case cleared
  then show ?thesis by (auto simp: eviction_calls_def)
next
  case (failed s1 err)
  with compress_tagsfile_cases(7)[OF failed(2)] show ?thesis
    by (auto simp: eviction_calls_def)
next
  case (demoted s1 cp)
  from compressed_add_calls[of k cp s1] obtain evs where
    evs: "calls (fst (compressed_add k cp s1)) = calls s1 @ evs"
      "set evs \<subseteq> Delete ` insert cp (paths_of (compressed_cache s1))" by blast
  from compress_tagsfile_cases(2,7,9)[OF demoted(2)]
  have s1: "compressed_cache s1 = compressed_cache s" "calls s1 = calls s @ [Compress p]"
    "cp = next_tmp s" by auto
  have "calls s' = calls s @ (Compress p # evs @ [Delete p])"
    using demoted(3) evs(1) s1(2) by simp
  moreover have "set (Compress p # evs @ [Delete p]) \<subseteq>
      eviction_calls {p} (paths_of (compressed_cache s)) (next_tmp s)"
    using evs(2) s1(1,3) by (auto simp: eviction_calls_def)
  ultimately show ?thesis by (metis list.set_intros(1))
qed


lemma evict_uncompressed_step:
  assumes "evict_uncompressed e (n # m # ns) s = (s', r)"
  obtains (fits) "total_size (n # m # ns) \<le> uncompressed_max_bytes s" "s' = s" "r = None"
  | (abort) err where "\<not> total_size (n # m # ns) \<le> uncompressed_max_bytes s"
      "clear_uncompressed_entry e (node_key n) (node_path n) (s\<lparr>uncompressed_cache := m # ns\<rparr>)
         = (s', Some err)" "r = Some err"
  | (continue) s1 where "\<not> total_size (n # m # ns) \<le> uncompressed_max_bytes s"
      "clear_uncompressed_entry e (node_key n) (node_path n) (s\<lparr>uncompressed_cache := m # ns\<rparr>)
         = (s1, None)" "evict_uncompressed e (m # ns) s1 = (s', r)"
  using assms by (auto split: if_splits prod.splits option.splits)

lemma evict_uncompressed_frame:
  "evict_uncompressed e ns s = (s', r) \<Longrightarrow>
   uncompressed_max_bytes s' = uncompressed_max_bytes s \<and>
   compressed_max_bytes s' = compressed_max_bytes s \<and>
   clearing s' = clearing s \<and> next_tmp s \<le> next_tmp s'"
proof (induction e ns s arbitrary: s' r rule: evict_uncompressed.induct)
  case (3 e n m ns s)
  let ?s0 = "s\<lparr>uncompressed_cache := m # ns\<rparr>"
  from "3.prems" show ?case
  proof (cases rule: evict_uncompressed_step)
    case (abort err)
    from clear_uncompressed_entry_frame[OF abort(2)] show ?thesis by simp
  next
    case (continue s1)
    from "3.IH"[OF continue(1) continue(2)[symmetric] refl continue(3)]
      clear_uncompressed_entry_frame[OF continue(2)]
    show ?thesis by simp
  qed simp
qed simp_all

lemma evict_uncompressed_within_cold:
  "evict_uncompressed e ns s = (s', r) \<Longrightarrow>
   within_capacity (compressed_max_bytes s) (compressed_cache s) \<Longrightarrow>
   within_capacity (compressed_max_bytes s) (compressed_cache s')"
proof (induction e ns s arbitrary: s' r rule: evict_uncompressed.induct)
  case (3 e n m ns s)
  let ?s0 = "s\<lparr>uncompressed_cache := m # ns\<rparr>"
  have w0: "within_capacity (compressed_max_bytes ?s0) (compressed_cache ?s0)"
    using "3.prems"(2) by simp
  from "3.prems"(1) show ?case
  proof (cases rule: evict_uncompressed_step)
    case (abort err)
    from clear_uncompressed_entry_within[OF abort(2) w0] show ?thesis by simp
  next
    case (continue s1)
    from clear_uncompressed_entry_within[OF continue(2) w0]
      clear_uncompressed_entry_frame(3)[OF continue(2)]
    have "within_capacity (compressed_max_bytes s1) (compressed_cache s1)"
      "compressed_max_bytes s1 = compressed_max_bytes s" by simp_all
    with "3.IH"[OF continue(1) continue(2)[symmetric] refl continue(3)]
    show ?thesis by simp
  qed (use "3.prems"(2) in simp)
qed simp_all

lemma evict_uncompressed_suffix:
  "evict_uncompressed e ns s = (s', r) \<Longrightarrow> uncompressed_cache s = ns \<Longrightarrow>
   \<exists>pre. ns = pre @ uncompressed_cache s' \<and> (ns \<noteq> [] \<longrightarrow> uncompressed_cache s' \<noteq> []) \<and>
     keys_of (compressed_cache s') \<subseteq> keys_of (compressed_cache s) \<union> keys_of pre"
proof (induction e ns s arbitrary: s' r rule: evict_uncompressed.induct)
  case (3 e n m ns s)
  let ?s0 = "s\<lparr>uncompressed_cache := m # ns\<rparr>"
  from "3.prems"(1) show ?case
  proof (cases rule: evict_uncompressed_step)
    case fits
    with "3.prems"(2) show ?thesis by simp
  next
    case (abort err)
    from clear_uncompressed_entry_frame(1)[OF abort(2)] clear_uncompressed_entry_sets[OF abort(2)]
    have "n # m # ns = [n] @ uncompressed_cache s'" "uncompressed_cache s' \<noteq> []"
      "keys_of (compressed_cache s') \<subseteq> keys_of (compressed_cache s) \<union> keys_of [n]"
      by auto
    then show ?thesis by blast
  next
    case (continue s1)
    from clear_uncompressed_entry_frame(1)[OF continue(2)]
    have "uncompressed_cache s1 = m # ns" by simp
    from "3.IH"[OF continue(1) continue(2)[symmetric] refl continue(3) this]
    obtain pre where pre: "m # ns = pre @ uncompressed_cache s'" "uncompressed_cache s' \<noteq> []"
      "keys_of (compressed_cache s') \<subseteq> keys_of (compressed_cache s1) \<union> keys_of pre"
      by auto
    from pre(1) have "n # m # ns = (n # pre) @ uncompressed_cache s'" by simp
    moreover from pre(3) clear_uncompressed_entry_sets[OF continue(2)]
    have "keys_of (compressed_cache s') \<subseteq> keys_of (compressed_cache s) \<union> keys_of (n # pre)"
      by auto
    ultimately show ?thesis using pre(2) by blast
  qed
qed auto

lemma evict_uncompressed_within_hot:
  "evict_uncompressed e ns s = (s', None) \<Longrightarrow> uncompressed_cache s = ns \<Longrightarrow> ns \<noteq> [] \<Longrightarrow>
   within_capacity (uncompressed_max_bytes s) (uncompressed_cache s')"
proof (induction e ns s arbitrary: s' rule: evict_uncompressed.induct)
  case (3 e n m ns s)
  from "3.prems"(1) show ?case
  proof (cases rule: evict_uncompressed_step)
    case fits
    with "3.prems"(2) show ?thesis by (simp add: within_capacity_def)
  next
    case (continue s1)
    from clear_uncompressed_entry_frame(1,2)[OF continue(2)]
    have "uncompressed_cache s1 = m # ns" "uncompressed_max_bytes s1 = uncompressed_max_bytes s"
      by simp_all
    with "3.IH"[OF continue(1) continue(2)[symmetric] refl continue(3)]
    show ?thesis by simp
  qed simp
qed (auto simp: within_capacity_def)

lemma evict_uncompressed_calls:
  "evict_uncompressed e ns s = (s', r) \<Longrightarrow>
   \<exists>evs. calls s' = calls s @ evs \<and>
     set evs \<subseteq> eviction_calls (paths_of (butlast ns)) (paths_of (compressed_cache s)) (next_tmp s)"
proof (induction e ns s arbitrary: s' r rule: evict_uncompressed.induct)
  case (3 e n m ns s)
  let ?s0 = "s\<lparr>uncompressed_cache := m # ns\<rparr>"
  let ?A = "eviction_calls (paths_of (butlast (n # m # ns))) (paths_of (compressed_cache s)) (next_tmp s)"
  from "3.prems"(1) show ?case
  proof (cases rule: evict_uncompressed_step)
    case (abort err)
    from clear_uncompressed_entry_calls[OF abort(2)] obtain evs where
      evs: "calls s' = calls s @ evs"
        "set evs \<subseteq> eviction_calls {node_path n} (paths_of (compressed_cache s)) (next_tmp s)"
      by auto
    have "eviction_calls {node_path n} (paths_of (compressed_cache s)) (next_tmp s) \<subseteq> ?A"
      by (rule eviction_calls_mono) auto
    with evs show ?thesis by blast
  next
    case (continue s1)
    from clear_uncompressed_entry_calls[OF continue(2)] obtain evs where
      evs: "calls s1 = calls s @ evs"
        "set evs \<subseteq> eviction_calls {node_path n} (paths_of (compressed_cache s)) (next_tmp s)"
      by auto
    from "3.IH"[OF continue(1) continue(2)[symmetric] refl continue(3)] obtain evs' where
      evs': "calls s' = calls s1 @ evs'"
        "set evs' \<subseteq> eviction_calls (paths_of (butlast (m # ns))) (paths_of (compressed_cache s1)) (next_tmp s1)"
      by auto
    have "eviction_calls {node_path n} (paths_of (compressed_cache s)) (next_tmp s) \<subseteq> ?A"
      by (rule eviction_calls_mono) auto
    moreover have "eviction_calls (paths_of (butlast (m # ns))) (paths_of (compressed_cache s1)) (next_tmp s1) \<subseteq> ?A"
      using clear_uncompressed_entry_sets[OF continue(2)] clear_uncompressed_entry_frame(5)[OF continue(2)]
      by (intro eviction_calls_mono) auto
    ultimately have "set (evs @ evs') \<subseteq> ?A" using evs(2) evs'(2) by auto
    moreover have "calls s' = calls s @ (evs @ evs')" using evs(1) evs'(1) by simp
    ultimately show ?thesis by blast
  qed simp
qed simp_all

lemma evict_uncompressed_files:
  "evict_uncompressed e ns s = (s', r) \<Longrightarrow> q < next_tmp s \<Longrightarrow>
   q \<notin> paths_of (compressed_cache s) \<Longrightarrow> q \<notin> paths_of (butlast ns) \<Longrightarrow>
   files s' q = files s q \<and> q \<notin> paths_of (compressed_cache s')"
proof (induction e ns s arbitrary: s' r rule: evict_uncompressed.induct)
  case (3 e n m ns s)
  let ?s0 = "s\<lparr>uncompressed_cache := m # ns\<rparr>"
  have q: "q < next_tmp ?s0" "q \<notin> paths_of (compressed_cache ?s0)" "q \<noteq> node_path n"
    using "3.prems"(2,3,4) by auto
  from "3.prems"(1) show ?case
  proof (cases rule: evict_uncompressed_step)
    case fits
    with "3.prems" show ?thesis by simp
  next
    case (abort err)
    from clear_uncompressed_entry_files[OF abort(2) q] clear_uncompressed_entry_sets[OF abort(2)] q(1,2)
    show ?thesis by auto
  next
    case (continue s1)
    from clear_uncompressed_entry_files[OF continue(2) q] clear_uncompressed_entry_sets[OF continue(2)]
      clear_uncompressed_entry_frame(5)[OF continue(2)] q(1,2)
    have s1: "files s1 q = files s q" "q \<notin> paths_of (compressed_cache s1)" "q < next_tmp s1"
      by auto
    have "q \<notin> paths_of (butlast (m # ns))" using "3.prems"(4) by auto
    from "3.IH"[OF continue(1) continue(2)[symmetric] refl continue(3) s1(3,2) this] s1(1)
    show ?thesis by simp
  qed
qed simp_all


lemma evict_uncompressed_demoted:
  "evict_uncompressed e ns s = (s', r) \<Longrightarrow> uncompressed_cache s = ns \<Longrightarrow> \<not> clearing s \<Longrightarrow>
   \<exists>pre evs. ns = pre @ uncompressed_cache s' \<and> calls s' = calls s @ evs \<and>
     Compress ` paths_of pre \<subseteq> set evs"
proof (induction e ns s arbitrary: s' r rule: evict_uncompressed.induct)
  case (3 e n m ns s)
  let ?s0 = "s\<lparr>uncompressed_cache := m # ns\<rparr>"
  have c0: "\<not> clearing ?s0" using "3.prems"(3) by simp
  from "3.prems"(1) show ?case
  proof (cases rule: evict_uncompressed_step)
    case fits
    with "3.prems"(2) have "n # m # ns = [] @ uncompressed_cache s'" "calls s' = calls s @ []" by simp_all
    then show ?thesis by (metis empty_subsetI image_empty paths_of_simps(1))
  next
    case (abort err)
    from clear_uncompressed_entry_calls[OF abort(2)] c0 obtain evs where
      "calls s' = calls s @ evs" "Compress (node_path n) \<in> set evs" by auto
    moreover from clear_uncompressed_entry_frame(1)[OF abort(2)]
    have "n # m # ns = [n] @ uncompressed_cache s'" by simp
    ultimately show ?thesis by (intro exI[of _ "[n]"] exI[of _ evs]) simp
  next
    case (continue s1)
    from clear_uncompressed_entry_calls[OF continue(2)] c0 obtain evs where
      evs: "calls s1 = calls s @ evs" "Compress (node_path n) \<in> set evs" by auto
    from clear_uncompressed_entry_frame(1,4)[OF continue(2)] c0
    have "uncompressed_cache s1 = m # ns" "\<not> clearing s1" by simp_all
    from "3.IH"[OF continue(1) continue(2)[symmetric] refl continue(3) this]
    obtain pre evs' where pre: "m # ns = pre @ uncompressed_cache s'" "calls s' = calls s1 @ evs'"
      "Compress ` paths_of pre \<subseteq> set evs'" by blast
    from pre(1) have "n # m # ns = (n # pre) @ uncompressed_cache s'" by simp
    moreover have "calls s' = calls s @ (evs @ evs')" using evs(1) pre(2) by simp
    moreover have "Compress ` paths_of (n # pre) \<subseteq> set (evs @ evs')" using evs(2) pre(3) by auto
    ultimately show ?thesis by blast
  qed
qed auto

lemma uncompress_tagsfile_cases:
  assumes "uncompress_tagsfile e cp s = (s1, r)"
  shows "uncompressed_cache s1 = uncompressed_cache s"
    and "compressed_cache s1 = compressed_cache s"
    and "uncompressed_max_bytes s1 = uncompressed_max_bytes s"
    and "compressed_max_bytes s1 = compressed_max_bytes s"
    and "clearing s1 = clearing s"
    and "next_tmp s1 = Suc (next_tmp s)"
    and "calls s1 = calls s @ [Uncompress cp]"
    and "\<forall>q. q \<noteq> next_tmp s \<longrightarrow> files s1 q = files s q"
    and "\<forall>p. r = Inr p \<longrightarrow> p = next_tmp s \<and> files s1 p \<noteq> None"
    and "\<forall>err. r = Inl err \<longrightarrow> err = IOFailure"
  using assms
  by (auto simp: uncompress_tagsfile_def mkstemp_def record_call_def split: option.splits)

lemma create_tagsfile_cases:
  assumes "create_tagsfile e g k s = (s1, r)"
  shows "uncompressed_cache s1 = uncompressed_cache s"
    and "compressed_cache s1 = compressed_cache s"
    and "uncompressed_max_bytes s1 = uncompressed_max_bytes s"
    and "compressed_max_bytes s1 = compressed_max_bytes s"
    and "clearing s1 = clearing s"
    and "next_tmp s \<le> next_tmp s1"
    and "calls s1 = calls s @ [Create g k]"
    and "\<forall>q. q \<noteq> next_tmp s \<longrightarrow> files s1 q = files s q"
    and "\<forall>p. r = Inr p \<longrightarrow> p = next_tmp s \<and> next_tmp s1 = Suc p \<and> files s1 p = ctags e g k \<and> files s1 p \<noteq> None"
    and "\<forall>err. r = Inl err \<longrightarrow> err = CreationFailure \<and> ctags e g k = None \<and> files s1 = files s \<and> next_tmp s1 = next_tmp s"
  using assms
  by (auto simp: create_tagsfile_def mkstemp_def record_call_def Let_def split: option.splits)

lemma uncompressed_add_cases:
  assumes "uncompressed_add e k p s = (s', r)"
  obtains (missing) "files s p = None" "s' = s" "r = Some IOFailure"
  | (added) b where "files s p = Some b"
      "evict_uncompressed e (lru_insert k p (length b) (uncompressed_cache s))
         (s\<lparr>uncompressed_cache := lru_insert k p (length b) (uncompressed_cache s)\<rparr>) = (s', r)"
  using assms by (auto simp: uncompressed_add_def Let_def split: option.splits)

lemma get_tagsfile_locked_cases:
  assumes "get_tagsfile_locked e g k s = (s', r)"
  obtains (hit) "lru_contains k (uncompressed_cache s)"
      "s' = s\<lparr>uncompressed_cache := lru_touch k (uncompressed_cache s)\<rparr>"
      "r = Inr (the (lru_value k (uncompressed_cache s)))"
  | (promotion_failed) err where "\<not> lru_contains k (uncompressed_cache s)"
      "lru_contains k (compressed_cache s)"
      "uncompress_tagsfile e (the (lru_value k (compressed_cache s)))
         (s\<lparr>compressed_cache := lru_touch k (compressed_cache s)\<rparr>) = (s', Inl err)"
      "r = Inl err"
  | (promoted) s2 p ro where "\<not> lru_contains k (uncompressed_cache s)"
      "lru_contains k (compressed_cache s)"
      "uncompress_tagsfile e (the (lru_value k (compressed_cache s)))
         (s\<lparr>compressed_cache := lru_touch k (compressed_cache s)\<rparr>) = (s2, Inr p)"
      "uncompressed_add e k p (s2\<lparr>compressed_cache := lru_remove k (compressed_cache s2)\<rparr>) = (s', ro)"
      "r = (case ro of Some err \<Rightarrow> Inl err | None \<Rightarrow> Inr p)"
  | (creation_failed) err where "\<not> lru_contains k (uncompressed_cache s)"
      "\<not> lru_contains k (compressed_cache s)"
      "create_tagsfile e g k s = (s', Inl err)" "r = Inl err"
  | (created) s2 p ro where "\<not> lru_contains k (uncompressed_cache s)"
      "\<not> lru_contains k (compressed_cache s)"
      "create_tagsfile e g k s = (s2, Inr p)"
      "uncompressed_add e k p s2 = (s', ro)"
      "r = (case ro of Some err \<Rightarrow> Inl err | None \<Rightarrow> Inr p)"
  using assms unfolding get_tagsfile_locked_def Let_def
  by (auto split: if_splits prod.splits sum.splits option.splits)

lemma lru_contains_keys: "lru_contains k ns = (k \<in> keys_of ns)"
  by (auto simp: lru_contains_def keys_of_def node_key_def map_of_eq_None_iff)

lemma lru_touch_keys [simp]: "keys_of (lru_touch k ns) = keys_of ns"
  by (auto simp: lru_touch_def keys_of_def)

lemma lru_touch_distinct:
  "distinct (map node_key ns) \<Longrightarrow> distinct (map node_key (lru_touch k ns))"
  by (auto simp: lru_touch_def distinct_map_filter)

lemma lru_remove_keys [simp]: "keys_of (lru_remove k ns) = keys_of ns - {k}"
  by (auto simp: lru_remove_def keys_of_def)

lemma lru_insert_distinct:
  "distinct (map node_key ns) \<Longrightarrow> distinct (map node_key (lru_insert k p sz ns))"
  by (auto simp: lru_insert_def distinct_map_filter node_key_def)

lemma uncompressed_add_disjoint:
  assumes "uncompressed_add e k p s = (s', r)" and "disjoint_sectors s"
    and "k \<notin> keys_of (compressed_cache s)"
  shows "disjoint_sectors s'"
  using assms(1)
proof (cases rule: uncompressed_add_cases)
  case missing
  with assms(2) show ?thesis by simp
next
  case (added b)
  let ?ns = "lru_insert k p (length b) (uncompressed_cache s)"
  let ?s0 = "s\<lparr>uncompressed_cache := ?ns\<rparr>"
  have d: "distinct (map node_key ?ns)"
    using assms(2) by (simp add: disjoint_sectors_def lru_insert_distinct)
  have i: "keys_of ?ns \<inter> keys_of (compressed_cache s) = {}"
    using assms(2,3) lru_insert_sets(1)[of k p "length b" "uncompressed_cache s"]
    by (auto simp: disjoint_sectors_def)
  have "uncompressed_cache ?s0 = ?ns" by simp
  from evict_uncompressed_suffix[OF added(2) this] obtain pre where
    pre: "?ns = pre @ uncompressed_cache s'"
      "keys_of (compressed_cache s') \<subseteq> keys_of (compressed_cache s) \<union> keys_of pre"
    by auto
  from d pre(1) have "distinct (map node_key (pre @ uncompressed_cache s'))" by simp
  then have d': "distinct (map node_key (uncompressed_cache s'))"
    "keys_of pre \<inter> keys_of (uncompressed_cache s') = {}"
    by (auto simp: keys_of_def)
  have "keys_of (uncompressed_cache s') \<subseteq> keys_of ?ns"
    using suffix_sets[OF pre(1)] by simp
  with i pre(2) d' show ?thesis unfolding disjoint_sectors_def by blast
qed

lemma get_tagsfile_locked_disjoint:
  assumes "get_tagsfile_locked e g k s = (s', r)" and "disjoint_sectors s"
  shows "disjoint_sectors s'"
  using assms(1)
proof (cases rule: get_tagsfile_locked_cases)
  case hit
  with assms(2) show ?thesis by (simp add: disjoint_sectors_def lru_touch_distinct)
next
  case (promotion_failed err)
  from uncompress_tagsfile_cases(1,2)[OF promotion_failed(3)] assms(2)
  show ?thesis by (simp add: disjoint_sectors_def)
next
  case (promoted s2 p ro)
  let ?s3 = "s2\<lparr>compressed_cache := lru_remove k (compressed_cache s2)\<rparr>"
  from uncompress_tagsfile_cases(1,2)[OF promoted(3)] assms(2)
  have "disjoint_sectors ?s3" "k \<notin> keys_of (compressed_cache ?s3)"
    by (auto simp: disjoint_sectors_def)
  from uncompressed_add_disjoint[OF promoted(4) this] show ?thesis .
next
  case (creation_failed err)
  from create_tagsfile_cases(1,2)[OF creation_failed(3)] assms(2)
  show ?thesis by (simp add: disjoint_sectors_def)
next
  case (created s2 p ro)
  from create_tagsfile_cases(1,2)[OF created(3)] assms(2) created(2)
  have "disjoint_sectors s2" "k \<notin> keys_of (compressed_cache s2)"
    by (auto simp: disjoint_sectors_def lru_contains_keys)
  from uncompressed_add_disjoint[OF created(4) this] show ?thesis .
qed

lemma with_lock_cases:
  assumes "with_lock block s = (s', r)"
  obtains s1 where "block (record_call Acquire s) = (s1, r)" "s' = record_call Release s1"
  using assms by (auto simp: with_lock_def split: prod.splits)

lemma record_call_simps [simp]:
  "uncompressed_cache (record_call c s) = uncompressed_cache s"
  "compressed_cache (record_call c s) = compressed_cache s"
  "uncompressed_max_bytes (record_call c s) = uncompressed_max_bytes s"
  "compressed_max_bytes (record_call c s) = compressed_max_bytes s"
  "clearing (record_call c s) = clearing s"
  "next_tmp (record_call c s) = next_tmp s"
  "files (record_call c s) = files s"
  "calls (record_call c s) = calls s @ [c]"
  by (simp_all add: record_call_def)

lemma get_tagsfile_cases:
  assumes "get_tagsfile e g k s = (s', r)"
  obtains (rejected) "length k \<noteq> 40" "s' = s" "r = Inl AssertionError"
  | (locked) s1 where "length k = 40"
      "get_tagsfile_locked e g k (record_call Acquire s) = (s1, r)"
      "s' = record_call Release s1"
  using assms by (auto simp: get_tagsfile_def elim: with_lock_cases split: if_splits)

lemma get_tagsfile_disjoint:
  assumes "disjoint_sectors s"
  shows "disjoint_sectors (fst (get_tagsfile e g k s))"
proof -
  obtain s' r where g: "get_tagsfile e g k s = (s', r)" by (cases "get_tagsfile e g k s")
  from g show ?thesis
  proof (cases rule: get_tagsfile_cases)
    case rejected
    with assms g show ?thesis by simp
  next
    case (locked s1)
    have "disjoint_sectors (record_call Acquire s)"
      using assms by (simp add: disjoint_sectors_def)
    from get_tagsfile_locked_disjoint[OF locked(2) this] locked(3) g
    show ?thesis by (simp add: disjoint_sectors_def)
  qed
qed

lemma clear_uncompressed_cache_clearing:
  "clearing s \<Longrightarrow> uncompressed_cache s = ns \<Longrightarrow>
   snd (clear_uncompressed_cache e ns s) = None \<and>
   uncompressed_cache (fst (clear_uncompressed_cache e ns s)) = [] \<and>
   compressed_cache (fst (clear_uncompressed_cache e ns s)) = compressed_cache s"
  by (induction e ns s rule: clear_uncompressed_cache.induct)
     (simp_all add: clear_uncompressed_entry_def)

lemma clear_compressed_cache_empties:
  "compressed_cache s = ns \<Longrightarrow>
   compressed_cache (clear_compressed_cache ns s) = [] \<and>
   uncompressed_cache (clear_compressed_cache ns s) = uncompressed_cache s"
  by (induction ns s rule: clear_compressed_cache.induct)
     (simp_all add: clear_compressed_entry_def)

lemma clear_empties:
  "uncompressed_cache (fst (clear e s)) = [] \<and> compressed_cache (fst (clear e s)) = []"
proof -
  let ?s1 = "s\<lparr>clearing := True\<rparr>"
  let ?c = "clear_uncompressed_cache e (uncompressed_cache ?s1) ?s1"
  have c: "snd ?c = None" "uncompressed_cache (fst ?c) = []"
    using clear_uncompressed_cache_clearing[of ?s1 "uncompressed_cache ?s1" e] by simp_all
  then obtain s2 where s2: "?c = (s2, None)" "uncompressed_cache s2 = []"
    by (cases ?c) auto
  with clear_compressed_cache_empties[of s2 "compressed_cache s2"]
  show ?thesis by (simp add: clear_def Let_def)
qed

lemma perform_disjoint:
  assumes "disjoint_sectors s"
  shows "disjoint_sectors (perform x s)"
proof (cases x)
  case (Get_tagsfile e g k)
  with assms show ?thesis by (simp add: get_tagsfile_disjoint)
next
  case (Clear e)
  then show ?thesis by (simp add: clear_empties disjoint_sectors_def)
qed

lemma run_disjoint: "disjoint_sectors s \<Longrightarrow> disjoint_sectors (run xs s)"
  by (induction xs arbitrary: s) (simp_all add: perform_disjoint)

lemma within_capacity_code [code]:
  "within_capacity cap ns =
     (total_size ns \<le> cap \<or> (case ns of [n] \<Rightarrow> cap < node_size n | _ \<Rightarrow> False))"
  by (auto simp: within_capacity_def split: list.splits)

lemma total_size_filter:
  "total_size (filter P ns) + total_size (filter (\<lambda>n. \<not> P n) ns) = total_size ns"
  by (induction ns) auto

lemma lru_touch_total [simp]: "total_size (lru_touch k ns) = total_size ns"
  using total_size_filter[of "\<lambda>n. node_key n \<noteq> k" ns] by (simp add: lru_touch_def)

lemma lru_touch_single [simp]: "lru_touch k [n] = [n]"
  by (simp add: lru_touch_def)

lemma within_capacity_touch:
  "within_capacity cap ns \<Longrightarrow> within_capacity cap (lru_touch k ns)"
  by (auto simp: within_capacity_def)

lemma within_capacity_remove:
  assumes "within_capacity cap ns"
  shows "within_capacity cap (lru_remove k ns)"
proof (cases "total_size ns \<le> cap")
  case True
  with total_size_filter[of "\<lambda>n. node_key n \<noteq> k" ns] show ?thesis
    by (simp add: within_capacity_def lru_remove_def)
next
  case False
  with assms obtain n where "ns = [n]" "cap < node_size n" by (auto simp: within_capacity_def)
  then show ?thesis by (cases "node_key n = k") (simp_all add: within_capacity_def lru_remove_def)
qed

lemma clear_uncompressed_entry_error:
  "clear_uncompressed_entry e k p s = (s', Some err) \<Longrightarrow> err = IOFailure"
  by (erule clear_uncompressed_entry_cases) (auto dest: compress_tagsfile_cases(10))

lemma evict_uncompressed_error:
  "evict_uncompressed e ns s = (s', Some err) \<Longrightarrow> err = IOFailure"
proof (induction e ns s arbitrary: s' rule: evict_uncompressed.induct)
  case (3 e n m ns s)
  from "3.prems" show ?case
  proof (cases rule: evict_uncompressed_step)
    case (abort err')
    with clear_uncompressed_entry_error[OF abort(2)] show ?thesis by simp
  next
    case (continue s1)
    from "3.IH"[OF continue(1) continue(2)[symmetric] refl continue(3)] show ?thesis .
  qed simp
qed simp_all

lemma uncompressed_add_error:
  "uncompressed_add e k p s = (s', Some err) \<Longrightarrow> err = IOFailure"
  by (erule uncompressed_add_cases) (auto dest: evict_uncompressed_error)

lemma uncompressed_add_capacity:
  assumes "uncompressed_add e k p s = (s', None)"
    and "within_capacity (compressed_max_bytes s) (compressed_cache s)"
  shows "capacity_respected s' \<and> uncompressed_max_bytes s' = uncompressed_max_bytes s \<and>
         compressed_max_bytes s' = compressed_max_bytes s"
  using assms(1)
proof (cases rule: uncompressed_add_cases)
  case (added b)
  let ?ns = "lru_insert k p (length b) (uncompressed_cache s)"
  let ?s0 = "s\<lparr>uncompressed_cache := ?ns\<rparr>"
  have h: "uncompressed_cache ?s0 = ?ns" "?ns \<noteq> []" by (simp_all add: lru_insert_sets(3))
  have c: "within_capacity (compressed_max_bytes ?s0) (compressed_cache ?s0)"
    using assms(2) by simp
  from evict_uncompressed_frame[OF added(2)]
  have f: "uncompressed_max_bytes s' = uncompressed_max_bytes s"
    "compressed_max_bytes s' = compressed_max_bytes s" by simp_all
  from evict_uncompressed_within_hot[OF added(2) h] evict_uncompressed_within_cold[OF added(2) c] f
  show ?thesis by (simp add: capacity_respected_def)
qed simp_all

lemma uncompressed_add_outcome:
  assumes "uncompressed_add e k p s = (s', ro)"
    and "(case ro of Some err \<Rightarrow> Inl err | None \<Rightarrow> Inr p) \<noteq> Inl IOFailure"
  shows "ro = None"
proof (cases ro)
  case (Some err)
  with uncompressed_add_error[of e k p s s' err] assms show ?thesis by simp
qed simp

lemma get_tagsfile_locked_capacity:
  assumes "get_tagsfile_locked e g k s = (s', r)" and "capacity_respected s"
    and "r \<noteq> Inl IOFailure"
  shows "capacity_respected s' \<and> uncompressed_max_bytes s' = uncompressed_max_bytes s \<and>
         compressed_max_bytes s' = compressed_max_bytes s"
  using assms(1)
proof (cases rule: get_tagsfile_locked_cases)
  case hit
  with assms(2) show ?thesis by (simp add: capacity_respected_def within_capacity_touch)
next
  case (promotion_failed err)
  with uncompress_tagsfile_cases(10)[OF promotion_failed(3)] assms(3) show ?thesis by simp
next
  case (promoted s2 p ro)
  let ?s3 = "s2\<lparr>compressed_cache := lru_remove k (compressed_cache s2)\<rparr>"
  from uncompressed_add_outcome[OF promoted(4)] promoted(5) assms(3) have ro: "ro = None" by simp
  from uncompress_tagsfile_cases(2,3,4)[OF promoted(3)] assms(2)
  have s3: "within_capacity (compressed_max_bytes ?s3) (compressed_cache ?s3)"
    "uncompressed_max_bytes ?s3 = uncompressed_max_bytes s"
    "compressed_max_bytes ?s3 = compressed_max_bytes s"
    by (simp_all add: capacity_respected_def within_capacity_touch within_capacity_remove)
  from uncompressed_add_capacity[OF promoted(4)[unfolded ro] s3(1)] s3(2,3)
  show ?thesis by simp
next
  case (creation_failed err)
  from create_tagsfile_cases(1-4)[OF creation_failed(3)] assms(2)
  show ?thesis by (simp add: capacity_respected_def)
next
  case (created s2 p ro)
  from uncompressed_add_outcome[OF created(4)] created(5) assms(3) have ro: "ro = None" by simp
  from create_tagsfile_cases(2,3,4)[OF created(3)] assms(2)
  have s2: "within_capacity (compressed_max_bytes s2) (compressed_cache s2)"
    "uncompressed_max_bytes s2 = uncompressed_max_bytes s"
    "compressed_max_bytes s2 = compressed_max_bytes s"
    by (simp_all add: capacity_respected_def)
  from uncompressed_add_capacity[OF created(4)[unfolded ro] s2(1)] s2(2,3)
  show ?thesis by simp
qed

lemma get_tagsfile_capacity:
  assumes "get_tagsfile e g k s = (s', r)" and "capacity_respected s"
    and "r \<noteq> Inl IOFailure"
  shows "capacity_respected s' \<and> uncompressed_max_bytes s' = uncompressed_max_bytes s \<and>
         compressed_max_bytes s' = compressed_max_bytes s"
  using assms(1)
proof (cases rule: get_tagsfile_cases)
  case rejected
  with assms(2) show ?thesis by simp
next
  case (locked s1)
  have "capacity_respected (record_call Acquire s)"
    using assms(2) by (simp add: capacity_respected_def)
  from get_tagsfile_locked_capacity[OF locked(2) this assms(3)] locked(3)
  show ?thesis by (clarsimp simp: capacity_respected_def)
qed

lemma get_all_capacity:
  "capacity_respected s \<Longrightarrow> Inl IOFailure \<notin> set (snd (get_all xs s)) \<Longrightarrow>
   capacity_respected (fst (get_all xs s)) \<and>
   uncompressed_max_bytes (fst (get_all xs s)) = uncompressed_max_bytes s \<and>
   compressed_max_bytes (fst (get_all xs s)) = compressed_max_bytes s"
proof (induction xs arbitrary: s)
  case Nil
  then show ?case by simp
next
  case (Cons x xs)
  obtain e g k where x: "x = (e, g, k)" by (cases x)
  obtain s1 r where g: "get_tagsfile e g k s = (s1, r)" by (cases "get_tagsfile e g k s")
  obtain s2 rs where a: "get_all xs s1 = (s2, rs)" by (cases "get_all xs s1")
  from Cons.prems(2) x g a have r: "r \<noteq> Inl IOFailure" "Inl IOFailure \<notin> set (snd (get_all xs s1))"
    by auto
  from get_tagsfile_capacity[OF g Cons.prems(1) r(1)]
  have s1: "capacity_respected s1" "uncompressed_max_bytes s1 = uncompressed_max_bytes s"
    "compressed_max_bytes s1 = compressed_max_bytes s" by simp_all
  from Cons.IH[OF s1(1) r(2)] s1(2,3) x g a show ?case by simp
qed

lemma uncompressed_add_calls:
  assumes "uncompressed_add e k p s = (s', r)"
  shows "\<exists>evs. calls s' = calls s @ evs \<and> Acquire \<notin> set evs \<and> Release \<notin> set evs"
  using assms
proof (cases rule: uncompressed_add_cases)
  case missing
  then show ?thesis by simp
next
  case (added b)
  from evict_uncompressed_calls[OF added(2)] show ?thesis
    by (auto simp: eviction_calls_def)
qed

lemma get_tagsfile_miss_calls:
  assumes "length k = 40" "\<not> lru_contains k (uncompressed_cache s)"
    "\<not> lru_contains k (compressed_cache s)"
  shows "\<exists>evs. calls (fst (get_tagsfile e g k s)) = calls s @ Acquire # Create g k # evs"
proof -
  obtain s' r where g: "get_tagsfile e g k s = (s', r)" by (cases "get_tagsfile e g k s")
  from g show ?thesis
  proof (cases rule: get_tagsfile_cases)
    case rejected
    with assms(1) show ?thesis by simp
  next
    case (locked s1)
    from locked(2) show ?thesis
    proof (cases rule: get_tagsfile_locked_cases)
      case (creation_failed err)
      from create_tagsfile_cases(7)[OF creation_failed(3)] locked(3) g show ?thesis by simp
    next
      case (created s2 p ro)
      from uncompressed_add_calls[OF created(4)] obtain evs where "calls s1 = calls s2 @ evs"
        by blast
      with create_tagsfile_cases(7)[OF created(3)] locked(3) g show ?thesis by simp
    qed (use assms(2,3) in simp_all)
  qed
qed

lemma node_size_le_total: "n \<in> set ns \<Longrightarrow> node_size n \<le> total_size ns"
  by (induction ns) auto

lemma uncompressed_add_stores:
  assumes "uncompressed_add e k p s = (s', r)" and "files s p = Some b"
  shows "\<exists>pre. lru_insert k p (length b) (uncompressed_cache s) = pre @ uncompressed_cache s'"
    and "uncompressed_cache s' \<noteq> []"
    and "last (uncompressed_cache s') = (k, p, length b)"
    and "uncompressed_max_bytes s' = uncompressed_max_bytes s"
    and "r = None \<longrightarrow> within_capacity (uncompressed_max_bytes s) (uncompressed_cache s')"
proof -
  let ?ns = "lru_insert k p (length b) (uncompressed_cache s)"
  let ?s0 = "s\<lparr>uncompressed_cache := ?ns\<rparr>"
  from assms have ev: "evict_uncompressed e ?ns ?s0 = (s', r)"
    by (simp add: uncompressed_add_def Let_def)
  have h: "uncompressed_cache ?s0 = ?ns" "?ns \<noteq> []" by (simp_all add: lru_insert_sets(3))
  from evict_uncompressed_suffix[OF ev h(1)] h(2) obtain pre where
    pre: "?ns = pre @ uncompressed_cache s'" "uncompressed_cache s' \<noteq> []" by auto
  from pre(1) show "\<exists>pre. ?ns = pre @ uncompressed_cache s'" ..
  from pre(2) show "uncompressed_cache s' \<noteq> []" .
  have "last ?ns = (k, p, length b)" by (simp add: lru_insert_def)
  with pre show "last (uncompressed_cache s') = (k, p, length b)" by (metis last_appendR)
  from evict_uncompressed_frame[OF ev] show "uncompressed_max_bytes s' = uncompressed_max_bytes s"
    by simp
  show "r = None \<longrightarrow> within_capacity (uncompressed_max_bytes s) (uncompressed_cache s')"
    using evict_uncompressed_within_hot[OF _ h] ev by auto
qed

lemma uncompressed_add_key_nodes:
  assumes "uncompressed_add e k p s = (s', r)" and "files s p = Some b"
    and "n \<in> set (uncompressed_cache s')"
  shows "n = (k, p, length b) \<or> (node_key n \<noteq> k \<and> n \<in> set (uncompressed_cache s))"
proof -
  from uncompressed_add_stores(1)[OF assms(1,2)] obtain pre where
    "lru_insert k p (length b) (uncompressed_cache s) = pre @ uncompressed_cache s'" ..
  with assms(3) have "n \<in> set (lru_insert k p (length b) (uncompressed_cache s))"
    by (metis Un_iff set_append)
  then show ?thesis by (auto simp: lru_insert_def)
qed

lemma lru_touch_paths [simp]: "paths_of (lru_touch k ns) = paths_of ns"
  by (auto simp: lru_touch_def paths_of_def)

lemma lru_remove_paths: "paths_of (lru_remove k ns) \<subseteq> paths_of ns"
  by (auto simp: lru_remove_def paths_of_def)

lemma clear_uncompressed_entry_old:
  assumes "clear_uncompressed_entry e k p s = (s', r)"
    and "\<forall>q \<in> paths_of (compressed_cache s). q < next_tmp s"
  shows "\<forall>q \<in> paths_of (compressed_cache s'). q < next_tmp s'"
  using assms(1)
proof (cases rule: clear_uncompressed_entry_cases)
  case cleared
  with assms(2) show ?thesis by simp
next
  case (failed s1 err)
  with compress_tagsfile_cases(2,6)[OF failed(2)] assms(2) show ?thesis by auto
next
  case (demoted s1 cp)
  from compress_tagsfile_cases(2,6,9)[OF demoted(2)]
  have s1: "compressed_cache s1 = compressed_cache s" "next_tmp s1 = Suc (next_tmp s)"
    "cp = next_tmp s" by auto
  from compressed_add_sets[of k cp s1] compressed_add_frame[of k cp s1] s1 assms(2) demoted(3)
  show ?thesis by (auto simp: less_Suc_eq)
qed

lemma evict_uncompressed_old:
  "evict_uncompressed e ns s = (s', r) \<Longrightarrow>
   \<forall>q \<in> paths_of (compressed_cache s). q < next_tmp s \<Longrightarrow>
   \<forall>q \<in> paths_of (compressed_cache s'). q < next_tmp s'"
proof (induction e ns s arbitrary: s' r rule: evict_uncompressed.induct)
  case (3 e n m ns s)
  let ?s0 = "s\<lparr>uncompressed_cache := m # ns\<rparr>"
  have o: "\<forall>q \<in> paths_of (compressed_cache ?s0). q < next_tmp ?s0" using "3.prems"(2) by simp
  from "3.prems"(1) show ?case
  proof (cases rule: evict_uncompressed_step)
    case fits
    with "3.prems"(2) show ?thesis by simp
  next
    case (abort err)
    from clear_uncompressed_entry_old[OF abort(2) o] show ?thesis .
  next
    case (continue s1)
    from "3.IH"[OF continue(1) continue(2)[symmetric] refl continue(3)
        clear_uncompressed_entry_old[OF continue(2) o]]
    show ?thesis .
  qed
qed simp_all

lemma uncompressed_add_old:
  assumes "uncompressed_add e k p s = (s', r)" and "names_in_use_are_old s" and "p < next_tmp s"
  shows "names_in_use_are_old s'"
  using assms(1)
proof (cases rule: uncompressed_add_cases)
  case missing
  with assms(2) show ?thesis by simp
next
  case (added b)
  let ?ns = "lru_insert k p (length b) (uncompressed_cache s)"
  let ?s0 = "s\<lparr>uncompressed_cache := ?ns\<rparr>"
  have o: "\<forall>q \<in> paths_of (compressed_cache ?s0). q < next_tmp ?s0"
    using assms(2) by (simp add: names_in_use_are_old_def)
  have "uncompressed_cache ?s0 = ?ns" by simp
  from evict_uncompressed_suffix[OF added(2) this] obtain pre where
    "?ns = pre @ uncompressed_cache s'" by blast
  from suffix_sets[OF this] lru_insert_sets(2)[of k p "length b" "uncompressed_cache s"]
  have "paths_of (uncompressed_cache s') \<subseteq> insert p (paths_of (uncompressed_cache s))" by blast
  moreover from evict_uncompressed_frame[OF added(2)] have "next_tmp s \<le> next_tmp s'" by simp
  ultimately have "\<forall>q \<in> paths_of (uncompressed_cache s'). q < next_tmp s'"
    using assms(2,3) unfolding names_in_use_are_old_def
    by (metis UnI1 insert_iff order.strict_trans2 subsetD)
  with evict_uncompressed_old[OF added(2) o] show ?thesis
    by (auto simp: names_in_use_are_old_def)
qed

lemma uncompressed_add_clearing:
  "uncompressed_add e k p s = (s', r) \<Longrightarrow> clearing s' = clearing s"
  by (erule uncompressed_add_cases) (auto dest: evict_uncompressed_frame)

lemma get_tagsfile_locked_old:
  assumes "get_tagsfile_locked e g k s = (s', r)" and "names_in_use_are_old s"
  shows "names_in_use_are_old s' \<and> clearing s' = clearing s"
  using assms(1)
proof (cases rule: get_tagsfile_locked_cases)
  case hit
  with assms(2) show ?thesis by (simp add: names_in_use_are_old_def)
next
  case (promotion_failed err)
  from uncompress_tagsfile_cases(1,2,5,6)[OF promotion_failed(3)] assms(2)
  show ?thesis by (auto simp: names_in_use_are_old_def less_Suc_eq)
next
  case (promoted s2 p ro)
  let ?s3 = "s2\<lparr>compressed_cache := lru_remove k (compressed_cache s2)\<rparr>"
  from uncompress_tagsfile_cases(1,2,5,6,9)[OF promoted(3)] assms(2)
    lru_remove_paths[of k "compressed_cache s2"]
  have "names_in_use_are_old ?s3" "p < next_tmp ?s3" "clearing ?s3 = clearing s"
    by (auto simp: names_in_use_are_old_def less_Suc_eq)
  with uncompressed_add_old[OF promoted(4)] uncompressed_add_clearing[OF promoted(4)]
  show ?thesis by simp
next
  case (creation_failed err)
  from create_tagsfile_cases(1,2,5,6)[OF creation_failed(3)] assms(2)
  show ?thesis unfolding names_in_use_are_old_def by (metis order.strict_trans2)
next
  case (created s2 p ro)
  from create_tagsfile_cases(1,2,5,9)[OF created(3)] assms(2)
  have "names_in_use_are_old s2" "p < next_tmp s2" "clearing s2 = clearing s"
    by (auto simp: names_in_use_are_old_def less_Suc_eq)
  with uncompressed_add_old[OF created(4)] uncompressed_add_clearing[OF created(4)]
  show ?thesis by simp
qed

lemma get_tagsfile_consistent:
  assumes "consistent s"
  shows "consistent (fst (get_tagsfile e g k s))"
proof -
  obtain s' r where g: "get_tagsfile e g k s = (s', r)" by (cases "get_tagsfile e g k s")
  from g have "names_in_use_are_old s' \<and> clearing s' = clearing s"
  proof (cases rule: get_tagsfile_cases)
    case rejected
    with assms show ?thesis by (simp add: consistent_def)
  next
    case (locked s1)
    have "names_in_use_are_old (record_call Acquire s)"
      using assms by (simp add: consistent_def names_in_use_are_old_def)
    from get_tagsfile_locked_old[OF locked(2) this] locked(3)
    show ?thesis by (simp add: names_in_use_are_old_def)
  qed
  with get_tagsfile_disjoint[of s e g k] assms g show ?thesis by (simp add: consistent_def)
qed

lemma clear_not_clearing: "\<not> clearing (fst (clear e s))"
proof -
  let ?s1 = "s\<lparr>clearing := True\<rparr>"
  let ?c = "clear_uncompressed_cache e (uncompressed_cache ?s1) ?s1"
  have "snd ?c = None"
    using clear_uncompressed_cache_clearing[of ?s1 "uncompressed_cache ?s1" e] by simp
  then obtain s2 where "?c = (s2, None)" by (cases ?c) auto
  then show ?thesis by (simp add: clear_def Let_def)
qed

lemma perform_consistent:
  assumes "consistent s"
  shows "consistent (perform x s)"
proof (cases x)
  case (Get_tagsfile e g k)
  with assms show ?thesis by (simp add: get_tagsfile_consistent)
next
  case (Clear e)
  then show ?thesis
    by (simp add: clear_empties clear_not_clearing consistent_def disjoint_sectors_def
        names_in_use_are_old_def)
qed

lemma run_consistent: "consistent s \<Longrightarrow> consistent (run xs s)"
  by (induction xs arbitrary: s) (simp_all add: perform_consistent)

lemma new_cache_consistent: "consistent (CTagsCache umax cmax)"
  by (simp add: consistent_def disjoint_sectors_def names_in_use_are_old_def CTagsCache_def)


lemma lru_value_paths: "lru_value k ns = Some p \<Longrightarrow> p \<in> paths_of ns"
  by (auto simp: lru_value_def paths_of_def node_path_def dest!: map_of_SomeD intro!: image_eqI)


lemma uncompressed_add_moves:
  assumes "uncompressed_add e k p s = (s', r)" and "files s p = Some b"
    and "\<not> clearing s" and "k \<notin> keys_of (uncompressed_cache s)"
  shows "keys_of (compressed_cache s') \<subseteq> keys_of (compressed_cache s) \<union> (keys_of (uncompressed_cache s) - {k})"
    and "\<exists>evs. calls s' = calls s @ evs \<and>
           (\<forall>n \<in> set (uncompressed_cache s). n \<notin> set (uncompressed_cache s') \<longrightarrow>
              Compress (node_path n) \<in> set evs)"
proof -
  let ?ns = "lru_insert k p (length b) (uncompressed_cache s)"
  let ?s0 = "s\<lparr>uncompressed_cache := ?ns\<rparr>"
  from assms have ev: "evict_uncompressed e ?ns ?s0 = (s', r)"
    by (simp add: uncompressed_add_def Let_def)
  have h: "uncompressed_cache ?s0 = ?ns" "?ns \<noteq> []" "\<not> clearing ?s0"
    using assms(3) by (simp_all add: lru_insert_sets(3))
  from evict_uncompressed_suffix[OF ev h(1)] h(2) obtain pre where
    pre: "?ns = pre @ uncompressed_cache s'" "uncompressed_cache s' \<noteq> []"
      "keys_of (compressed_cache s') \<subseteq> keys_of (compressed_cache s) \<union> keys_of pre"
    by auto
  from pre(1,2) have "pre @ butlast (uncompressed_cache s') = butlast ?ns"
    by (metis butlast_append)
  then have "set pre \<subseteq> set (butlast ?ns)" by (metis Un_upper1 set_append)
  then have "keys_of pre \<subseteq> keys_of (uncompressed_cache s) - {k}"
    by (auto simp: lru_insert_def keys_of_def)
  with pre(3) show "keys_of (compressed_cache s') \<subseteq>
      keys_of (compressed_cache s) \<union> (keys_of (uncompressed_cache s) - {k})" by blast
  from evict_uncompressed_demoted[OF ev h(1,3)] obtain pre' evs where
    d: "?ns = pre' @ uncompressed_cache s'" "calls s' = calls s @ evs"
      "Compress ` paths_of pre' \<subseteq> set evs" by auto
  have "Compress (node_path n) \<in> set evs"
    if "n \<in> set (uncompressed_cache s)" "n \<notin> set (uncompressed_cache s')" for n
  proof -
    from that(1) assms(4) have "node_key n \<noteq> k" by (auto simp: keys_of_def)
    with that(1) have "n \<in> set ?ns" by (simp add: lru_insert_def)
    with d(1) that(2) have "n \<in> set pre'" by (metis Un_iff set_append)
    with d(3) show ?thesis by (auto simp: paths_of_def)
  qed
  with d(2) show "\<exists>evs. calls s' = calls s @ evs \<and>
           (\<forall>n \<in> set (uncompressed_cache s). n \<notin> set (uncompressed_cache s') \<longrightarrow>
              Compress (node_path n) \<in> set evs)" by blast
qed



lemma uncompressed_add_keeps:
  assumes "uncompressed_add e k p s = (s', r)"
    and "q < next_tmp s" and "q \<notin> paths_of (compressed_cache s)"
    and "q \<notin> paths_of (filter (\<lambda>n. node_key n \<noteq> k) (uncompressed_cache s))"
  shows "files s' q = files s q"
  using assms(1)
proof (cases rule: uncompressed_add_cases)
  case missing
  then show ?thesis by simp
next
  case (added b)
  let ?ns = "lru_insert k p (length b) (uncompressed_cache s)"
  have "butlast ?ns = filter (\<lambda>n. node_key n \<noteq> k) (uncompressed_cache s)"
    by (simp add: lru_insert_def)
  with evict_uncompressed_files[OF added(2), of q] assms(2,3,4) show ?thesis by simp
qed

lemma distinct_paths_suffix:
  "distinct (map node_path (pre @ rest)) \<Longrightarrow> distinct (map node_path rest)"
  by simp

lemma distinct_paths_insert:
  "distinct (map node_path ns) \<Longrightarrow> p \<notin> paths_of ns \<Longrightarrow>
   distinct (map node_path (lru_insert k p sz ns))"
  by (auto simp: lru_insert_def distinct_map_filter paths_of_def node_path_def)

lemma distinct_paths_touch:
  "distinct (map node_path ns) \<Longrightarrow> distinct (map node_path (lru_touch k ns))"
  by (auto simp: lru_touch_def distinct_map inj_on_def)

lemma distinct_paths_remove:
  "distinct (map node_path ns) \<Longrightarrow> distinct (map node_path (lru_remove k ns))"
  by (auto simp: lru_remove_def distinct_map_filter)

lemma compressed_add_distinct:
  assumes "distinct (map node_path (compressed_cache s))" and "p \<notin> paths_of (compressed_cache s)"
  shows "distinct (map node_path (compressed_cache (fst (compressed_add k p s))))"
proof (cases "files s p")
  case None
  with assms(1) show ?thesis by (simp add: compressed_add_def)
next
  case (Some b)
  let ?ns = "lru_insert k p (length b) (compressed_cache s)"
  let ?s0 = "s\<lparr>compressed_cache := ?ns\<rparr>"
  have fst: "fst (compressed_add k p s) = evict_compressed ?ns ?s0"
    using Some by (simp add: compressed_add_def Let_def)
  have "compressed_cache ?s0 = ?ns" by simp
  from evict_compressed_suffix[OF this] obtain pre where
    "?ns = pre @ compressed_cache (evict_compressed ?ns ?s0)" by blast
  with distinct_paths_insert[OF assms, of k "length b"] show ?thesis
    unfolding fst by (metis distinct_paths_suffix)
qed

lemma clear_uncompressed_entry_distinct:
  assumes "clear_uncompressed_entry e k p s = (s', r)"
    and "distinct (map node_path (compressed_cache s))"
    and "\<forall>q \<in> paths_of (compressed_cache s). q < next_tmp s"
  shows "distinct (map node_path (compressed_cache s'))"
  using assms(1)
proof (cases rule: clear_uncompressed_entry_cases)
  case cleared
  with assms(2) show ?thesis by simp
next
  case (failed s1 err)
  with compress_tagsfile_cases(2)[OF failed(2)] assms(2) show ?thesis by simp
next
  case (demoted s1 cp)
  from compress_tagsfile_cases(2,9)[OF demoted(2)] assms(2,3)
  have "distinct (map node_path (compressed_cache s1))" "cp \<notin> paths_of (compressed_cache s1)"
    by auto
  from compressed_add_distinct[OF this] demoted(3) show ?thesis by simp
qed

lemma evict_uncompressed_separate:
  "evict_uncompressed e ns s = (s', r) \<Longrightarrow> uncompressed_cache s = ns \<Longrightarrow>
   separate_files ns (compressed_cache s) \<Longrightarrow>
   \<forall>q \<in> paths_of ns \<union> paths_of (compressed_cache s). q < next_tmp s \<Longrightarrow>
   separate_files (uncompressed_cache s') (compressed_cache s')"
proof (induction e ns s arbitrary: s' r rule: evict_uncompressed.induct)
  case (3 e n m ns s)
  let ?s0 = "s\<lparr>uncompressed_cache := m # ns\<rparr>"
  have d0: "distinct (map node_path (compressed_cache ?s0))"
    and o0: "\<forall>q \<in> paths_of (compressed_cache ?s0). q < next_tmp ?s0"
    using "3.prems"(3,4) by (simp_all add: separate_files_def)
  have step: "uncompressed_cache s1 = m # ns \<and>
      separate_files (m # ns) (compressed_cache s1) \<and>
      (\<forall>q \<in> paths_of (m # ns) \<union> paths_of (compressed_cache s1). q < next_tmp s1)"
    if c: "clear_uncompressed_entry e (node_key n) (node_path n) ?s0 = (s1, r1)" for s1 r1
  proof -
    note fr = clear_uncompressed_entry_frame[OF c]
    from clear_uncompressed_entry_sets[OF c]
    have se: "paths_of (compressed_cache s1) \<subseteq> insert (next_tmp s) (paths_of (compressed_cache s))"
      by simp
    from fr(5) have nt: "next_tmp s \<le> next_tmp s1" by simp
    from clear_uncompressed_entry_distinct[OF c d0 o0]
    have d1: "distinct (map node_path (compressed_cache s1))" .
    from clear_uncompressed_entry_old[OF c o0]
    have o1: "\<forall>q \<in> paths_of (compressed_cache s1). q < next_tmp s1" .
    have sub: "paths_of (m # ns) \<subseteq> paths_of (n # m # ns)" by auto
    have lt: "q < next_tmp s" if "q \<in> paths_of (m # ns)" for q
      using "3.prems"(4) sub that by blast
    have lt1: "q < next_tmp s1" if "q \<in> paths_of (m # ns)" for q
      using lt[OF that] nt by (rule less_le_trans)
    have "paths_of (n # m # ns) \<inter> paths_of (compressed_cache s) = {}"
      using "3.prems"(3) by (simp only: separate_files_def)
    with sub have "paths_of (m # ns) \<inter> paths_of (compressed_cache s) = {}" by blast
    moreover have "next_tmp s \<notin> paths_of (m # ns)" using lt by blast
    ultimately have disj: "paths_of (m # ns) \<inter> paths_of (compressed_cache s1) = {}"
      using se by blast
    have "distinct (map node_path (n # m # ns))"
      using "3.prems"(3) by (simp only: separate_files_def)
    then have "distinct (map node_path (m # ns))" by simp
    with disj d1 have "separate_files (m # ns) (compressed_cache s1)"
      by (simp only: separate_files_def simp_thms)
    moreover have "\<forall>q \<in> paths_of (m # ns) \<union> paths_of (compressed_cache s1). q < next_tmp s1"
      using lt1 o1 by blast
    moreover have "uncompressed_cache s1 = m # ns" using fr(1) by simp
    ultimately show ?thesis by blast
  qed
  from "3.prems"(1) show ?case
  proof (cases rule: evict_uncompressed_step)
    case fits
    with "3.prems"(2,3) show ?thesis by simp
  next
    case (abort err)
    from step[OF abort(2)] show ?thesis by simp
  next
    case (continue s1)
    from step[OF continue(2)]
    have "uncompressed_cache s1 = m # ns"
      "separate_files (m # ns) (compressed_cache s1)"
      "\<forall>q \<in> paths_of (m # ns) \<union> paths_of (compressed_cache s1). q < next_tmp s1"
      by blast+
    from "3.IH"[OF continue(1) continue(2)[symmetric] refl continue(3) this] show ?thesis .
  qed
qed simp_all

lemma uncompressed_add_one_file:
  assumes "uncompressed_add e k p s = (s', r)" and "one_file_per_entry s"
    and "names_in_use_are_old s" and "p < next_tmp s"
    and "p \<notin> paths_of (uncompressed_cache s) \<union> paths_of (compressed_cache s)"
  shows "one_file_per_entry s'"
  using assms(1)
proof (cases rule: uncompressed_add_cases)
  case missing
  with assms(2) show ?thesis by simp
next
  case (added b)
  let ?ns = "lru_insert k p (length b) (uncompressed_cache s)"
  let ?s0 = "s\<lparr>uncompressed_cache := ?ns\<rparr>"
  have h: "uncompressed_cache ?s0 = ?ns" by simp
  have sub: "paths_of ?ns \<subseteq> insert p (paths_of (uncompressed_cache s))"
    by (rule lru_insert_sets(2))
  from assms(2,5) have "distinct (map node_path ?ns)"
    by (simp add: one_file_per_entry_def separate_files_def distinct_paths_insert)
  moreover have "paths_of ?ns \<inter> paths_of (compressed_cache s) = {}"
    using sub assms(2,5) unfolding one_file_per_entry_def separate_files_def by blast
  ultimately have d: "separate_files ?ns (compressed_cache ?s0)"
    using assms(2) by (simp add: one_file_per_entry_def separate_files_def)
  have o: "\<forall>q \<in> paths_of ?ns \<union> paths_of (compressed_cache ?s0). q < next_tmp ?s0"
    using assms(3,4) sub by (auto simp: names_in_use_are_old_def)
  from evict_uncompressed_separate[OF added(2) h d o] show ?thesis
    by (simp add: one_file_per_entry_def)
qed

lemma get_tagsfile_locked_one_file:
  assumes "get_tagsfile_locked e g k s = (s', r)" and "one_file_per_entry s"
    and "names_in_use_are_old s"
  shows "one_file_per_entry s'"
  using assms(1)
proof (cases rule: get_tagsfile_locked_cases)
  case hit
  with assms(2) show ?thesis
    by (simp add: one_file_per_entry_def separate_files_def distinct_paths_touch)
next
  case (promotion_failed err)
  from uncompress_tagsfile_cases(1,2)[OF promotion_failed(3)] assms(2)
  show ?thesis by (simp add: one_file_per_entry_def separate_files_def distinct_paths_touch)
next
  case (promoted s2 p ro)
  let ?s3 = "s2\<lparr>compressed_cache := lru_remove k (compressed_cache s2)\<rparr>"
  note us = uncompress_tagsfile_cases[OF promoted(3)]
  have sub: "paths_of (compressed_cache ?s3) \<subseteq> paths_of (compressed_cache s)"
    using us(2) lru_remove_paths[of k "compressed_cache s2"] by simp
  have p: "p = next_tmp s" using us(9) by simp
  have "one_file_per_entry ?s3"
    using assms(2) us(1,2) sub
    by (auto simp: one_file_per_entry_def separate_files_def distinct_paths_touch distinct_paths_remove)
  moreover have "names_in_use_are_old ?s3" "p < next_tmp ?s3"
    "p \<notin> paths_of (uncompressed_cache ?s3) \<union> paths_of (compressed_cache ?s3)"
    using assms(3) us(1,6) sub p by (auto simp: names_in_use_are_old_def less_Suc_eq)
  ultimately show ?thesis by (rule uncompressed_add_one_file[OF promoted(4)])
next
  case (creation_failed err)
  from create_tagsfile_cases(1,2)[OF creation_failed(3)] assms(2)
  show ?thesis by (simp add: one_file_per_entry_def)
next
  case (created s2 p ro)
  note cs = create_tagsfile_cases[OF created(3)]
  have "one_file_per_entry s2" using assms(2) cs(1,2) by (simp add: one_file_per_entry_def)
  moreover have "names_in_use_are_old s2" "p < next_tmp s2"
    "p \<notin> paths_of (uncompressed_cache s2) \<union> paths_of (compressed_cache s2)"
    using assms(3) cs(1,2,9) by (auto simp: names_in_use_are_old_def less_Suc_eq)
  ultimately show ?thesis by (rule uncompressed_add_one_file[OF created(4)])
qed

lemma get_tagsfile_one_file:
  assumes "one_file_per_entry s" and "consistent s"
  shows "one_file_per_entry (fst (get_tagsfile e g k s))"
proof -
  obtain s' r where g: "get_tagsfile e g k s = (s', r)" by (cases "get_tagsfile e g k s")
  from g show ?thesis
  proof (cases rule: get_tagsfile_cases)
    case rejected
    with assms g show ?thesis by simp
  next
    case (locked s1)
    have "one_file_per_entry (record_call Acquire s)" "names_in_use_are_old (record_call Acquire s)"
      using assms by (simp_all add: one_file_per_entry_def consistent_def names_in_use_are_old_def)
    from get_tagsfile_locked_one_file[OF locked(2) this] locked(3) g
    show ?thesis by (simp add: one_file_per_entry_def)
  qed
qed

lemma run_one_file:
  "consistent s \<Longrightarrow> one_file_per_entry s \<Longrightarrow> one_file_per_entry (run xs s)"
proof (induction xs arbitrary: s)
  case Nil
  then show ?case by simp
next
  case (Cons x xs)
  have "one_file_per_entry (perform x s)"
  proof (cases x)
    case (Get_tagsfile e g k)
    with Cons.prems show ?thesis by (simp add: get_tagsfile_one_file)
  next
    case (Clear e)
    then show ?thesis by (simp add: clear_empties one_file_per_entry_def separate_files_def)
  qed
  with Cons.IH[OF perform_consistent[OF Cons.prems(1)]] show ?case by simp
qed

lemma new_cache_one_file: "one_file_per_entry (CTagsCache umax cmax)"
  by (simp add: one_file_per_entry_def separate_files_def CTagsCache_def)

lemma uncompressed_add_no_delete:
  assumes "uncompressed_add e k p s = (s', r)"
    and "q < next_tmp s" and "q \<notin> paths_of (compressed_cache s)"
    and "q \<notin> paths_of (filter (\<lambda>n. node_key n \<noteq> k) (uncompressed_cache s))"
  shows "\<exists>evs. calls s' = calls s @ evs \<and> Delete q \<notin> set evs"
  using assms(1)
proof (cases rule: uncompressed_add_cases)
  case missing
  then show ?thesis by simp
next
  case (added b)
  let ?ns = "lru_insert k p (length b) (uncompressed_cache s)"
  have bl: "butlast ?ns = filter (\<lambda>n. node_key n \<noteq> k) (uncompressed_cache s)"
    by (simp add: lru_insert_def)
  from evict_uncompressed_calls[OF added(2)] obtain evs where
    evs: "calls s' = calls s @ evs"
      "set evs \<subseteq> eviction_calls (paths_of (butlast ?ns)) (paths_of (compressed_cache s)) (next_tmp s)"
    by auto
  have "Delete q \<notin> eviction_calls (paths_of (butlast ?ns)) (paths_of (compressed_cache s)) (next_tmp s)"
    using assms(2,3,4) unfolding bl eviction_calls_def by auto
  with evs show ?thesis by blast
qed

lemma only_node_with_path:
  assumes "distinct (map node_path ns)" and "lru_value k ns = Some cp"
  shows "cp \<notin> paths_of (lru_remove k ns)"
proof
  assume "cp \<in> paths_of (lru_remove k ns)"
  then obtain n where n: "n \<in> set ns" "node_key n \<noteq> k" "node_path n = cp"
    by (auto simp: paths_of_def lru_remove_def)
  from assms(2) obtain sz where "(k, cp, sz) \<in> set ns"
    by (auto simp: lru_value_def dest!: map_of_SomeD)
  with n(1,3) assms(1) have "n = (k, cp, sz)"
    by (auto simp: distinct_map inj_on_def node_path_def)
  with n(2) show False by (simp add: node_key_def)
qed

lemma evict_uncompressed_first:
  "ns \<noteq> [] \<Longrightarrow> \<not> total_size (n # ns) \<le> uncompressed_max_bytes s \<Longrightarrow>
   evict_uncompressed e (n # ns) s =
     (case clear_uncompressed_entry e (node_key n) (node_path n) (s\<lparr>uncompressed_cache := ns\<rparr>) of
        (s1, Some err) \<Rightarrow> (s1, Some err)
      | (s1, None) \<Rightarrow> evict_uncompressed e ns s1)"
  by (cases ns) simp_all


lemma failed_compression:
  assumes "\<not> clearing s" and "files s p = Some b" and "gzip e b = None" and "p \<noteq> next_tmp s"
  shows "clear_uncompressed_entry e k p s =
           ((record_call (Compress p) s)\<lparr>files := (files s)(next_tmp s \<mapsto> []),
               next_tmp := Suc (next_tmp s)\<rparr>, Some IOFailure)"
  using assms
  by (simp add: clear_uncompressed_entry_def compress_tagsfile_def mkstemp_def record_call_def)

lemma clear_uncompressed_cache_calls:
  "clearing s \<Longrightarrow>
   \<exists>evs. calls (fst (clear_uncompressed_cache e ns s)) = calls s @ evs \<and> set evs \<subseteq> range Delete"
proof (induction e ns s rule: clear_uncompressed_cache.induct)
  case (1 e s)
  then show ?case by simp
next
  case (2 e n ns s)
  let ?s1 = "delete_tagsfile (node_path n) (s\<lparr>uncompressed_cache := ns\<rparr>)"
  have c: "clear_uncompressed_entry e (node_key n) (node_path n) (s\<lparr>uncompressed_cache := ns\<rparr>)
      = (?s1, None)"
    using "2.prems" by (simp add: clear_uncompressed_entry_def)
  have "clearing ?s1" using "2.prems" by simp
  from "2.IH"[OF c[symmetric] refl this] obtain evs where
    "calls (fst (clear_uncompressed_cache e ns ?s1)) = calls ?s1 @ evs" "set evs \<subseteq> range Delete"
    by blast
  then have "calls (fst (clear_uncompressed_cache e (n # ns) s)) = calls s @ (Delete (node_path n) # evs)"
    "set (Delete (node_path n) # evs) \<subseteq> range Delete"
    using c by auto
  then show ?case by blast
qed

lemma clear_compressed_cache_calls:
  "\<exists>evs. calls (clear_compressed_cache ns s) = calls s @ evs \<and> set evs \<subseteq> range Delete"
proof (induction ns s rule: clear_compressed_cache.induct)
  case (1 s)
  then show ?case by simp
next
  case (2 n ns s)
  let ?s1 = "clear_compressed_entry (node_key n) (node_path n) (s\<lparr>compressed_cache := ns\<rparr>)"
  from 2 obtain evs where
    "calls (clear_compressed_cache ns ?s1) = calls ?s1 @ evs" "set evs \<subseteq> range Delete"
    by blast
  then have "calls (clear_compressed_cache (n # ns) s) = calls s @ (Delete (node_path n) # evs)"
    "set (Delete (node_path n) # evs) \<subseteq> range Delete"
    by (auto simp: clear_compressed_entry_def)
  then show ?case by blast
qed

lemma get_tagsfile_holds_the_lock:
  assumes "length k = 40"
  shows "\<exists>evs. calls (fst (get_tagsfile e g k s)) = calls s @ [Acquire] @ evs @ [Release] \<and>
           Acquire \<notin> set evs \<and> Release \<notin> set evs"
proof -
  obtain s' r where g: "get_tagsfile e g k s = (s', r)" by (cases "get_tagsfile e g k s")
  let ?sa = "record_call Acquire s"
  from g assms obtain s1 where
    l: "get_tagsfile_locked e g k ?sa = (s1, r)" "s' = record_call Release s1"
    by (auto elim: get_tagsfile_cases)
  have "\<exists>evs. calls s1 = calls ?sa @ evs \<and> Acquire \<notin> set evs \<and> Release \<notin> set evs"
    using l(1)
  proof (cases rule: get_tagsfile_locked_cases)
    case hit
    then show ?thesis by simp
  next
    case (promotion_failed err)
    from uncompress_tagsfile_cases(7)[OF promotion_failed(3)]
    have "calls s1 = calls ?sa @ [Uncompress (the (lru_value k (compressed_cache ?sa)))]"
      "Acquire \<notin> set [Uncompress (the (lru_value k (compressed_cache ?sa)))]"
      "Release \<notin> set [Uncompress (the (lru_value k (compressed_cache ?sa)))]" by simp_all
    then show ?thesis by blast
  next
    case (promoted s2 p ro)
    from uncompressed_add_calls[OF promoted(4)] obtain evs where
      "calls s1 = calls s2 @ evs" "Acquire \<notin> set evs" "Release \<notin> set evs" by auto
    with uncompress_tagsfile_cases(7)[OF promoted(3)]
    have "calls s1 = calls ?sa @ (Uncompress (the (lru_value k (compressed_cache ?sa))) # evs)"
      "Acquire \<notin> set (Uncompress (the (lru_value k (compressed_cache ?sa))) # evs)"
      "Release \<notin> set (Uncompress (the (lru_value k (compressed_cache ?sa))) # evs)"
      by simp_all
    then show ?thesis by blast
  next
    case (creation_failed err)
    from create_tagsfile_cases(7)[OF creation_failed(3)]
    have "calls s1 = calls ?sa @ [Create g k]" "Acquire \<notin> set [Create g k]"
      "Release \<notin> set [Create g k]" by simp_all
    then show ?thesis by blast
  next
    case (created s2 p ro)
    from uncompressed_add_calls[OF created(4)] obtain evs where
      "calls s1 = calls s2 @ evs" "Acquire \<notin> set evs" "Release \<notin> set evs" by auto
    with create_tagsfile_cases(7)[OF created(3)]
    have "calls s1 = calls ?sa @ (Create g k # evs)"
      "Acquire \<notin> set (Create g k # evs)" "Release \<notin> set (Create g k # evs)"
      by simp_all
    then show ?thesis by blast
  qed
  then obtain evs where "calls s1 = calls ?sa @ evs" "Acquire \<notin> set evs" "Release \<notin> set evs"
    by blast
  with l(2) g have "calls (fst (get_tagsfile e g k s)) = calls s @ [Acquire] @ evs @ [Release]"
    by simp
  with \<open>Acquire \<notin> set evs\<close> \<open>Release \<notin> set evs\<close> show ?thesis by blast
qed

lemma new_calls_append [simp]: "calls s' = calls s @ evs \<Longrightarrow> new_calls s s' = evs"
  by (simp add: new_calls_def)

lemma new_calls_same [simp]: "new_calls s s = []"
  by (simp add: new_calls_def)

lemma aborted_compression_simps [simp]:
  "aborted_compression [] = None"
  "aborted_compression (evs @ [Compress q, Release]) = Some q"
  "aborted_compression [c, Release] = (case c of Compress q \<Rightarrow> Some q | _ \<Rightarrow> None)"
  by (simp_all add: aborted_compression_def split: call.splits)


lemma clear_uncompressed_entry_aborted:
  "clear_uncompressed_entry e k p s = (s', Some err) \<Longrightarrow> calls s' = calls s @ [Compress p]"
  by (erule clear_uncompressed_entry_cases) (auto dest: compress_tagsfile_cases(7))


lemma evict_uncompressed_aborted:
  "evict_uncompressed e ns s = (s', Some err) \<Longrightarrow>
   \<exists>evs q. calls s' = calls s @ evs @ [Compress q]"
proof (induction e ns s arbitrary: s' rule: evict_uncompressed.induct)
  case (3 e n m ns s)
  from "3.prems" show ?case
  proof (cases rule: evict_uncompressed_step)
    case (abort err')
    from clear_uncompressed_entry_aborted[OF abort(2)]
    have "calls s' = calls s @ [] @ [Compress (node_path n)]" by simp
    then show ?thesis by blast
  next
    case (continue s1)
    from clear_uncompressed_entry_calls[OF continue(2)] obtain evs1 where
      "calls s1 = calls s @ evs1" by auto
    moreover from "3.IH"[OF continue(1) continue(2)[symmetric] refl continue(3)] obtain evs q
      where "calls s' = calls s1 @ evs @ [Compress q]" by blast
    ultimately have "calls s' = calls s @ (evs1 @ evs) @ [Compress q]" by simp
    then show ?thesis by blast
  qed simp
qed simp_all

lemma uncompressed_add_aborted:
  assumes "uncompressed_add e k p s = (s', Some err)" and "files s p \<noteq> None"
  shows "\<exists>evs q. calls s' = calls s @ evs @ [Compress q]"
  using assms(1)
proof (cases rule: uncompressed_add_cases)
  case missing
  with assms(2) show ?thesis by simp
next
  case (added b)
  from evict_uncompressed_aborted[OF added(2)] show ?thesis by simp
qed

lemma uncompressed_add_completes:
  assumes "uncompressed_add e k p s = (s1, ro)" and "files s p \<noteq> None"
    and "calls s = calls s0 @ [Acquire, c]"
    and "aborted_compression (new_calls s0 (record_call Release s1)) = None"
  shows "ro = None"
proof (cases ro)
  case (Some err)
  from uncompressed_add_aborted[OF assms(1)[unfolded Some] assms(2)] obtain evs q where
    "calls s1 = calls s @ evs @ [Compress q]" by blast
  with assms(3) have "calls (record_call Release s1) = calls s0 @ ([Acquire, c] @ evs) @ [Compress q, Release]"
    by simp
  then have "new_calls s0 (record_call Release s1) = ([Acquire, c] @ evs) @ [Compress q, Release]"
    by (rule new_calls_append)
  with assms(4) show ?thesis by (simp only: aborted_compression_simps) simp
qed simp

lemma get_tagsfile_capacity_unless_aborted:
  assumes "get_tagsfile e g k s = (s', r)" and "capacity_respected s"
    and "aborted_compression (new_calls s s') = None"
  shows "capacity_respected s' \<and> uncompressed_max_bytes s' = uncompressed_max_bytes s \<and>
         compressed_max_bytes s' = compressed_max_bytes s"
  using assms(1)
proof (cases rule: get_tagsfile_cases)
  case rejected
  with assms(2) show ?thesis by simp
next
  case (locked s1)
  let ?sa = "record_call Acquire s"
  have ca: "capacity_respected ?sa" using assms(2) by (simp add: capacity_respected_def)
  have "capacity_respected s1 \<and> uncompressed_max_bytes s1 = uncompressed_max_bytes s \<and>
      compressed_max_bytes s1 = compressed_max_bytes s"
    using locked(2)
  proof (cases rule: get_tagsfile_locked_cases)
    case hit
    with ca show ?thesis by (simp add: capacity_respected_def within_capacity_touch)
  next
    case (promotion_failed err)
    from uncompress_tagsfile_cases(1-4)[OF promotion_failed(3)] ca
    show ?thesis by (simp add: capacity_respected_def within_capacity_touch)
  next
    case (promoted s2 p ro)
    let ?s3 = "s2\<lparr>compressed_cache := lru_remove k (compressed_cache s2)\<rparr>"
    note us = uncompress_tagsfile_cases[OF promoted(3)]
    have "files ?s3 p \<noteq> None" using us(9) by auto
    moreover have "calls ?s3 = calls s @ [Acquire, Uncompress (the (lru_value k (compressed_cache ?sa)))]"
      using us(7) by simp
    ultimately have ro: "ro = None"
      using uncompressed_add_completes[OF promoted(4)] assms(3) locked(3) by blast
    from us(2,3,4) ca
    have s3: "within_capacity (compressed_max_bytes ?s3) (compressed_cache ?s3)"
      "uncompressed_max_bytes ?s3 = uncompressed_max_bytes s"
      "compressed_max_bytes ?s3 = compressed_max_bytes s"
      by (simp_all add: capacity_respected_def within_capacity_touch within_capacity_remove)
    from uncompressed_add_capacity[OF promoted(4)[unfolded ro] s3(1)] s3(2,3)
    show ?thesis by simp
  next
    case (creation_failed err)
    from create_tagsfile_cases(1-4)[OF creation_failed(3)] ca
    show ?thesis by (simp add: capacity_respected_def)
  next
    case (created s2 p ro)
    note cs = create_tagsfile_cases[OF created(3)]
    have "files s2 p \<noteq> None" using cs(9) by auto
    moreover have "calls s2 = calls s @ [Acquire, Create g k]" using cs(7) by simp
    ultimately have ro: "ro = None"
      using uncompressed_add_completes[OF created(4)] assms(3) locked(3) by blast
    from cs(2,3,4) ca
    have s2: "within_capacity (compressed_max_bytes s2) (compressed_cache s2)"
      "uncompressed_max_bytes s2 = uncompressed_max_bytes s"
      "compressed_max_bytes s2 = compressed_max_bytes s"
      by (simp_all add: capacity_respected_def)
    from uncompressed_add_capacity[OF created(4)[unfolded ro] s2(1)] s2(2,3)
    show ?thesis by simp
  qed
  with locked(3) show ?thesis by (clarsimp simp: capacity_respected_def)
qed

lemma get_all_capacity_unless_aborted:
  "capacity_respected s \<Longrightarrow> no_aborted_compression xs s \<Longrightarrow>
   capacity_respected (fst (get_all xs s)) \<and>
   uncompressed_max_bytes (fst (get_all xs s)) = uncompressed_max_bytes s \<and>
   compressed_max_bytes (fst (get_all xs s)) = compressed_max_bytes s"
proof (induction xs arbitrary: s)
  case Nil
  then show ?case by simp
next
  case (Cons x xs)
  obtain e g k where x: "x = (e, g, k)" by (cases x)
  obtain s1 r where g: "get_tagsfile e g k s = (s1, r)" by (cases "get_tagsfile e g k s")
  obtain s2 rs where a: "get_all xs s1 = (s2, rs)" by (cases "get_all xs s1")
  from Cons.prems(2) x g have n: "aborted_compression (new_calls s s1) = None"
    "no_aborted_compression xs s1" by simp_all
  from get_tagsfile_capacity_unless_aborted[OF g Cons.prems(1) n(1)]
  have s1: "capacity_respected s1" "uncompressed_max_bytes s1 = uncompressed_max_bytes s"
    "compressed_max_bytes s1 = compressed_max_bytes s" by simp_all
  from Cons.IH[OF s1(1) n(2)] s1(2,3) x g a show ?case by simp
qed












lemma lru_remove_touch [simp]: "lru_remove k (lru_touch k ns) = lru_remove k ns"
  by (simp add: lru_remove_def lru_touch_def)






lemma compress_tagsfile_success:
  "compress_tagsfile e p s = (s1, Inr cp) \<Longrightarrow> p \<noteq> next_tmp s \<Longrightarrow>
   \<exists>b z. files s p = Some b \<and> gzip e b = Some z \<and> files s1 = (files s)(next_tmp s \<mapsto> z)"
  by (auto simp: compress_tagsfile_def mkstemp_def record_call_def split: option.splits)





lemma well_formed_record_call [simp]: "well_formed (record_call c s) = well_formed s"
  by (simp add: well_formed_def loop_inv_def)









lemma aborted_compression_none [simp]:
  "aborted_compression [Acquire, Release] = None"
  "aborted_compression [Acquire, Uncompress cp, Release] = None"
  "aborted_compression [Acquire, Create g k, Release] = None"
  by (simp_all add: aborted_compression_def)




section \<open>The claims\<close>

text \<open>
  C3: a key is never in the uncompressed and in the compressed sector at once. After any
  sequence of \<open>get_tagsfile\<close> and \<open>clear\<close> calls on a new cache, whatever the calls
  returned or raised, the key sets of the two sectors are disjoint: promotion takes the
  key out of the compressed sector before the insertion into the uncompressed one, and an
  evictee has left the uncompressed sector when its callback puts it into the compressed
  one.
\<close>

theorem sectors_never_share_a_key:
  "keys_of (uncompressed_cache (run xs (CTagsCache umax cmax))) \<inter>
   keys_of (compressed_cache (run xs (CTagsCache umax cmax))) = {}"
proof -
  have "disjoint_sectors (CTagsCache umax cmax)"
    by (simp add: disjoint_sectors_def CTagsCache_def)
  from run_disjoint[OF this] show ?thesis by (simp add: disjoint_sectors_def)
qed

text \<open>
  C5, as the code has it: a revision whose length is not 40 fails the assertion before the
  lock is taken; the state, and with it the record of calls, is unchanged, so no
  collaborator was called. Only the length is checked.
\<close>

theorem get_tagsfile_rejects_other_lengths:
  "length git_rev \<noteq> 40 \<Longrightarrow> get_tagsfile e git_repo_path git_rev s = (s, Inl AssertionError)"
  by (simp add: get_tagsfile_def)

theorem get_tagsfile_rejects_other_lengths_witness:
  "length ''deadbeef'' \<noteq> 40 \<and>
   get_tagsfile demo_env ''repo'' ''deadbeef'' (CTagsCache 10 10)
     = (CTagsCache 10 10, Inl AssertionError)"
  using get_tagsfile_rejects_other_lengths[of "''deadbeef''" demo_env "''repo''" "CTagsCache 10 10"]
  by simp

text \<open>
  C5 as stated fails: forty characters that are not hexadecimal digits are not a content
  identifier, yet the call is not rejected; it takes the lock and runs the creation.
\<close>

theorem forty_non_hex_characters_accepted:
  "\<not> full_sha (rev_of CHR ''z'') \<and>
   snd (get_tagsfile demo_env ''repo'' (rev_of CHR ''z'') (CTagsCache 10 10)) = Inr 0 \<and>
   calls (fst (get_tagsfile demo_env ''repo'' (rev_of CHR ''z'') (CTagsCache 10 10)))
     = [Acquire, Create ''repo'' (rev_of CHR ''z''), Release]"
  by code_simp

text \<open>
  C2 as stated fails: the third call needs two evictions and the compression of the first
  evictee fails, so the call raises with 14 bytes in two entries in the uncompressed
  sector of 10 bytes; the fourth call is a hit, returns, and leaves the sector so.
\<close>

theorem capacity_exceeded_after_failed_compression:
  "snd (get_all failing_requests (CTagsCache 10 100)) = [Inr 0, Inr 1, Inl IOFailure, Inr 2] \<and>
   uncompressed_cache (fst (get_all failing_requests (CTagsCache 10 100)))
     = [(rev_of CHR ''b'', 1, 9), (rev_of CHR ''c'', 2, 5)] \<and>
   uncompressed_max_bytes (fst (get_all failing_requests (CTagsCache 10 100))) = 10 \<and>
   \<not> within_capacity 10 (uncompressed_cache (fst (get_all failing_requests (CTagsCache 10 100))))"
  by code_simp

text \<open>
  C6: when the key is in neither sector and the creation fails, \<open>get_tagsfile\<close> raises
  the creation failure after one creation call (no retry); both sectors and the clearing
  flag are as before. The failure is not remembered: the next call for the same
  key, in any outside world, takes the lock and calls the creation again.
\<close>

theorem creation_failure_changes_nothing:
  assumes "length k = 40"
    and "\<not> lru_contains k (uncompressed_cache s)"
    and "\<not> lru_contains k (compressed_cache s)"
    and "ctags e g k = None"
  shows "snd (get_tagsfile e g k s) = Inl CreationFailure \<and>
         uncompressed_cache (fst (get_tagsfile e g k s)) = uncompressed_cache s \<and>
         compressed_cache (fst (get_tagsfile e g k s)) = compressed_cache s \<and>
         clearing (fst (get_tagsfile e g k s)) = clearing s \<and>
         calls (fst (get_tagsfile e g k s)) = calls s @ [Acquire, Create g k, Release] \<and>
         (\<forall>e'. \<exists>evs. calls (fst (get_tagsfile e' g k (fst (get_tagsfile e g k s))))
                  = calls (fst (get_tagsfile e g k s)) @ Acquire # Create g k # evs)"
proof -
  have first: "get_tagsfile e g k s =
      ((record_call Release (record_call (Create g k) (record_call Acquire s))), Inl CreationFailure)"
    using assms
    by (simp add: get_tagsfile_def with_lock_def get_tagsfile_locked_def create_tagsfile_def)
  let ?s' = "fst (get_tagsfile e g k s)"
  have same: "uncompressed_cache ?s' = uncompressed_cache s" "compressed_cache ?s' = compressed_cache s"
    using first by simp_all
  have again: "\<exists>evs. calls (fst (get_tagsfile e' g k ?s')) = calls ?s' @ Acquire # Create g k # evs"
    for e'
    by (rule get_tagsfile_miss_calls) (use assms(1,2,3) same in simp_all)
  from first again show ?thesis by simp
qed

theorem creation_failure_changes_nothing_witness:
  "length (rev_of CHR ''a'') = 40 \<and>
   \<not> lru_contains (rev_of CHR ''a'') (uncompressed_cache (CTagsCache 10 10)) \<and>
   \<not> lru_contains (rev_of CHR ''a'') (compressed_cache (CTagsCache 10 10)) \<and>
   ctags demo_env [] (rev_of CHR ''a'') = None \<and>
   snd (get_tagsfile demo_env [] (rev_of CHR ''a'') (CTagsCache 10 10)) = Inl CreationFailure \<and>
   uncompressed_cache (fst (get_tagsfile demo_env [] (rev_of CHR ''a'') (CTagsCache 10 10))) = [] \<and>
   compressed_cache (fst (get_tagsfile demo_env [] (rev_of CHR ''a'') (CTagsCache 10 10))) = [] \<and>
   calls (fst (get_tagsfile demo_env [] (rev_of CHR ''a'') (CTagsCache 10 10)))
     = [Acquire, Create [] (rev_of CHR ''a''), Release]"
proof -
  have h: "length (rev_of CHR ''a'') = 40"
    "\<not> lru_contains (rev_of CHR ''a'') (uncompressed_cache (CTagsCache 10 10))"
    "\<not> lru_contains (rev_of CHR ''a'') (compressed_cache (CTagsCache 10 10))"
    "ctags demo_env [] (rev_of CHR ''a'') = None"
    by (simp_all add: rev_of_def CTagsCache_def lru_contains_def demo_env_def)
  from creation_failure_changes_nothing[OF h] h show ?thesis
    by (simp add: CTagsCache_def)
qed

text \<open>
  C7: an entry larger than the capacity of the uncompressed sector is still stored by its
  insertion (line 133), whether or not an eviction callback raised; when the insertion
  completes, all other entries have been evicted and the entry is alone in the sector,
  which then exceeds its capacity; and the next completed insertion of another key evicts
  it.
\<close>

theorem oversized_entry_is_stored:
  assumes "files s p = Some b" and "uncompressed_max_bytes s < length b"
  shows "(k, p, length b) \<in> set (uncompressed_cache (fst (uncompressed_add e k p s))) \<and>
         uncompressed_max_bytes s < total_size (uncompressed_cache (fst (uncompressed_add e k p s))) \<and>
         (snd (uncompressed_add e k p s) = None \<longrightarrow>
            uncompressed_cache (fst (uncompressed_add e k p s)) = [(k, p, length b)]) \<and>
         (\<forall>e2 k2 p2. k2 \<noteq> k \<longrightarrow>
            snd (uncompressed_add e2 k2 p2 (fst (uncompressed_add e k p s))) = None \<longrightarrow>
            k \<notin> keys_of (uncompressed_cache
                    (fst (uncompressed_add e2 k2 p2 (fst (uncompressed_add e k p s))))))"
proof -
  obtain s1 r1 where a1: "uncompressed_add e k p s = (s1, r1)"
    by (cases "uncompressed_add e k p s")
  let ?n = "(k, p, length b)"
  note st = uncompressed_add_stores[OF a1 assms(1)]
  from st(2,3) have mem: "?n \<in> set (uncompressed_cache s1)" by (metis last_in_set)
  from node_size_le_total[OF mem] assms(2)
  have big: "uncompressed_max_bytes s < total_size (uncompressed_cache s1)"
    by (simp add: node_size_def)
  have alone: "uncompressed_cache s1 = [?n]" if "r1 = None"
  proof -
    from st(5) that big obtain n where "uncompressed_cache s1 = [n]"
      by (auto simp: within_capacity_def)
    with mem show ?thesis by simp
  qed
  have later: "k \<notin> keys_of (uncompressed_cache (fst (uncompressed_add e2 k2 p2 s1)))"
    if ne: "k2 \<noteq> k" and ok: "snd (uncompressed_add e2 k2 p2 s1) = None" for e2 k2 p2
  proof
    obtain s2 where a2: "uncompressed_add e2 k2 p2 s1 = (s2, None)"
      using ok by (cases "uncompressed_add e2 k2 p2 s1") auto
    then obtain b2 where f2: "files s1 p2 = Some b2"
      by (auto simp: uncompressed_add_def split: option.splits)
    note st2 = uncompressed_add_stores[OF a2 f2]
    assume "k \<in> keys_of (uncompressed_cache (fst (uncompressed_add e2 k2 p2 s1)))"
    with a2 obtain n where n: "n \<in> set (uncompressed_cache s2)" "node_key n = k"
      by (auto simp: keys_of_def)
    from uncompressed_add_key_nodes[OF a2 f2 n(1)] n(2) ne
    have n1: "n \<in> set (uncompressed_cache s1)" by (auto simp: node_key_def)
    from uncompressed_add_key_nodes[OF a1 assms(1) n1] n(2) have "n = ?n" by auto
    with node_size_le_total[OF n(1)] assms(2) st(4)
    have "uncompressed_max_bytes s1 < total_size (uncompressed_cache s2)"
      by (simp add: node_size_def)
    with st2(5) obtain n' where single: "uncompressed_cache s2 = [n']"
      by (auto simp: within_capacity_def)
    with n(1) st2(3) have "n = (k2, p2, length b2)" by simp
    with n(2) ne show False by (simp add: node_key_def)
  qed
  from a1 mem big alone later show ?thesis by simp
qed


theorem oversized_entry_is_stored_witness:
  "files two_files 0 = Some ''aaaaaaaaaaaa'' \<and>
   uncompressed_max_bytes two_files < length ''aaaaaaaaaaaa'' \<and>
   (rev_of CHR ''a'', 0, 12) \<in> set (uncompressed_cache
      (fst (uncompressed_add demo_env (rev_of CHR ''a'') 0 two_files))) \<and>
   snd (uncompressed_add demo_env (rev_of CHR ''a'') 0 two_files) = None \<and>
   uncompressed_cache (fst (uncompressed_add demo_env (rev_of CHR ''a'') 0 two_files))
     = [(rev_of CHR ''a'', 0, 12)] \<and>
   rev_of CHR ''b'' \<noteq> rev_of CHR ''a'' \<and>
   snd (uncompressed_add demo_env (rev_of CHR ''b'') 1
          (fst (uncompressed_add demo_env (rev_of CHR ''a'') 0 two_files))) = None \<and>
   rev_of CHR ''a'' \<notin> keys_of (uncompressed_cache
      (fst (uncompressed_add demo_env (rev_of CHR ''b'') 1
          (fst (uncompressed_add demo_env (rev_of CHR ''a'') 0 two_files)))))"
proof -
  have h: "files two_files 0 = Some ''aaaaaaaaaaaa''"
    "uncompressed_max_bytes two_files < length ''aaaaaaaaaaaa''"
    by (simp_all add: two_files_def CTagsCache_def)
  have ok: "snd (uncompressed_add demo_env (rev_of CHR ''a'') 0 two_files) = None"
    "snd (uncompressed_add demo_env (rev_of CHR ''b'') 1
          (fst (uncompressed_add demo_env (rev_of CHR ''a'') 0 two_files))) = None"
    by code_simp+
  have ne: "rev_of CHR ''b'' \<noteq> rev_of CHR ''a''" by (simp add: rev_of_def)
  from oversized_entry_is_stored[OF h, of "rev_of CHR ''a''" demo_env] h ok ne
  show ?thesis by simp
qed




text \<open>
  C9: in any state a cache can reach, when the key is in the compressed sector, a
  \<open>get_tagsfile\<close> call for it, whatever it returns or raises, deletes nothing at the
  path of the compressed entry: the file there is as before and no deletion of it is among
  the calls made, although after a call that returns the key has left the compressed
  sector.
\<close>

theorem promotion_deletes_no_compressed_file:
  assumes "s = run xs (CTagsCache umax cmax)"
    and "length k = 40"
    and "lru_value k (compressed_cache s) = Some cp"
  shows "files (fst (get_tagsfile e g k s)) cp = files s cp \<and>
         (\<exists>evs. calls (fst (get_tagsfile e g k s)) = calls s @ evs \<and> Delete cp \<notin> set evs) \<and>
         (\<forall>p. snd (get_tagsfile e g k s) = Inr p \<longrightarrow>
            k \<notin> keys_of (compressed_cache (fst (get_tagsfile e g k s))))"
proof -
  have "consistent s" "one_file_per_entry s"
    unfolding assms(1)
    by (rule run_consistent[OF new_cache_consistent],
        rule run_one_file[OF new_cache_consistent new_cache_one_file])
  then have dis: "keys_of (uncompressed_cache s) \<inter> keys_of (compressed_cache s) = {}"
    and old: "\<forall>q \<in> paths_of (uncompressed_cache s) \<union> paths_of (compressed_cache s). q < next_tmp s"
    and nc: "\<not> clearing s"
    and sep: "separate_files (uncompressed_cache s) (compressed_cache s)"
    by (simp_all add: consistent_def disjoint_sectors_def names_in_use_are_old_def
        one_file_per_entry_def)
  from assms(3) have cold: "lru_contains k (compressed_cache s)"
    by (auto simp: lru_contains_def lru_value_def)
  with dis have hot: "\<not> lru_contains k (uncompressed_cache s)"
    by (auto simp: lru_contains_keys)
  have cpin: "cp \<in> paths_of (compressed_cache s)" by (rule lru_value_paths[OF assms(3)])
  with old have cp: "cp < next_tmp s" by simp
  from sep cpin have cphot: "cp \<notin> paths_of (uncompressed_cache s)"
    unfolding separate_files_def by blast
  from sep have cpcold: "cp \<notin> paths_of (lru_remove k (compressed_cache s))"
    unfolding separate_files_def using only_node_with_path[OF _ assms(3)] by blast
  let ?sa = "record_call Acquire s"
  let ?st = "?sa\<lparr>compressed_cache := lru_touch k (compressed_cache ?sa)\<rparr>"
  obtain s' r where g: "get_tagsfile e g k s = (s', r)" by (cases "get_tagsfile e g k s")
  from g assms(2) obtain s1 where
    l: "get_tagsfile_locked e g k ?sa = (s1, r)" "s' = record_call Release s1"
    by (auto elim: get_tagsfile_cases)
  have "files s' cp = files s cp \<and>
        (\<exists>evs. calls s' = calls s @ evs \<and> Delete cp \<notin> set evs) \<and>
        (\<forall>p. r = Inr p \<longrightarrow> k \<notin> keys_of (compressed_cache s'))"
    using l(1)
  proof (cases rule: get_tagsfile_locked_cases)
    case hit
    with hot show ?thesis by simp
  next
    case (promotion_failed err)
    from promotion_failed(3) assms(3) have u: "uncompress_tagsfile e cp ?st = (s1, Inl err)" by simp
    note us = uncompress_tagsfile_cases[OF u]
    from us(8) cp have "files s1 cp = files s cp" by simp
    moreover have "calls s' = calls s @ [Acquire, Uncompress cp, Release]"
      using us(7) l(2) by simp
    ultimately show ?thesis using l(2) promotion_failed(4) by simp
  next
    case (promoted s2 p ro)
    let ?s3 = "s2\<lparr>compressed_cache := lru_remove k (compressed_cache s2)\<rparr>"
    from promoted(3) assms(3) have u: "uncompress_tagsfile e cp ?st = (s2, Inr p)" by simp
    note us = uncompress_tagsfile_cases[OF u]
    from us(8) cp have f2: "files s2 cp = files s cp" by simp
    have rm: "compressed_cache ?s3 = lru_remove k (compressed_cache s)"
      using us(2) by (simp add: lru_remove_def lru_touch_def)
    have c1: "cp < next_tmp ?s3" using us(6) cp by simp
    have c2: "cp \<notin> paths_of (compressed_cache ?s3)" using cpcold rm by simp
    have c3: "cp \<notin> paths_of (filter (\<lambda>n. node_key n \<noteq> k) (uncompressed_cache ?s3))"
      using cphot us(1) by (auto simp: paths_of_def)
    from uncompressed_add_keeps[OF promoted(4) c1 c2 c3] f2 l(2)
    have files: "files s' cp = files s cp" by simp
    from uncompressed_add_no_delete[OF promoted(4) c1 c2 c3] obtain evs where
      evs: "calls s1 = calls ?s3 @ evs" "Delete cp \<notin> set evs" by blast
    have "calls s' = calls s @ ([Acquire, Uncompress cp] @ evs @ [Release])"
      using evs(1) us(7) l(2) by simp
    moreover have "Delete cp \<notin> set ([Acquire, Uncompress cp] @ evs @ [Release])"
      using evs(2) by simp
    ultimately have calls: "\<exists>evs. calls s' = calls s @ evs \<and> Delete cp \<notin> set evs" by blast
    have gone: "k \<notin> keys_of (compressed_cache s')" if "r = Inr p'" for p'
    proof -
      from that promoted(5) have ro: "ro = None" by (cases ro) simp_all
      from that promoted(5) ro obtain b where b: "files ?s3 p = Some b"
        using promoted(4) by (auto simp: uncompressed_add_def split: option.splits)
      have "\<not> clearing ?s3" "k \<notin> keys_of (uncompressed_cache ?s3)"
        using us(1,5) nc hot by (simp_all add: lru_contains_keys)
      from uncompressed_add_moves(1)[OF promoted(4) b this] rm l(2) show ?thesis by auto
    qed
    from files calls gone show ?thesis by blast
  next
    case (creation_failed err)
    with cold show ?thesis by simp
  next
    case (created s2 p ro)
    with cold show ?thesis by simp
  qed
  with g show ?thesis by simp
qed

theorem promotion_deletes_no_compressed_file_witness:
  "length (rev_of CHR ''a'') = 40 \<and>
   lru_value (rev_of CHR ''a'') (compressed_cache (run ab_operations (CTagsCache 10 100))) = Some 2 \<and>
   files (run ab_operations (CTagsCache 10 100)) 2 = Some ''gzaaaaaa'' \<and>
   files (fst (get_tagsfile demo_env ''aaaaaa'' (rev_of CHR ''a'')
            (run ab_operations (CTagsCache 10 100)))) 2 = Some ''gzaaaaaa'' \<and>
   snd (get_tagsfile demo_env ''aaaaaa'' (rev_of CHR ''a'')
            (run ab_operations (CTagsCache 10 100))) = Inr 3 \<and>
   rev_of CHR ''a'' \<notin> keys_of (compressed_cache (fst (get_tagsfile demo_env ''aaaaaa''
            (rev_of CHR ''a'') (run ab_operations (CTagsCache 10 100)))))"
proof -
  let ?s = "run ab_operations (CTagsCache 10 100)"
  have h: "length (rev_of CHR ''a'') = 40"
    "lru_value (rev_of CHR ''a'') (compressed_cache ?s) = Some 2"
    by code_simp+
  have f: "files ?s 2 = Some ''gzaaaaaa''" by code_simp
  have r: "snd (get_tagsfile demo_env ''aaaaaa'' (rev_of CHR ''a'') ?s) = Inr 3" by code_simp
  from promotion_deletes_no_compressed_file[OF refl h, of demo_env "''aaaaaa''"] f r h
  show ?thesis by simp
qed




text \<open>
  C4 fails for \<open>clear\<close>: whatever the state, \<open>clear\<close> sets the clearing flag and empties
  both sectors while the calls it makes hold no acquisition and no release of the lock,
  only deletions. (\<open>get_tagsfile\<close> does bracket all its calls between an acquisition and
  a release, on every path: lemma \<open>get_tagsfile_holds_the_lock\<close>.)
\<close>

theorem clear_never_takes_the_lock:
  "(\<exists>evs. calls (fst (clear e s)) = calls s @ evs \<and> Acquire \<notin> set evs \<and> Release \<notin> set evs) \<and>
   uncompressed_cache (fst (clear e s)) = [] \<and> compressed_cache (fst (clear e s)) = []"
proof -
  let ?s1 = "s\<lparr>clearing := True\<rparr>"
  let ?c = "clear_uncompressed_cache e (uncompressed_cache ?s1) ?s1"
  have "snd ?c = None"
    using clear_uncompressed_cache_clearing[of ?s1 "uncompressed_cache ?s1" e] by simp
  then obtain s2 where s2: "?c = (s2, None)" by (cases ?c) auto
  from clear_uncompressed_cache_calls[of ?s1 e "uncompressed_cache ?s1"] s2 obtain evs where
    evs: "calls s2 = calls s @ evs" "set evs \<subseteq> range Delete" by auto
  from clear_compressed_cache_calls[of "compressed_cache s2" s2] obtain evs' where
    evs': "calls (clear_compressed_cache (compressed_cache s2) s2) = calls s2 @ evs'"
      "set evs' \<subseteq> range Delete" by blast
  have "calls (fst (clear e s)) = calls s @ (evs @ evs')"
    using s2 evs(1) evs'(1) by (simp add: clear_def Let_def)
  moreover have "Acquire \<notin> set (evs @ evs')" "Release \<notin> set (evs @ evs')"
    using evs(2) evs'(2) by auto
  ultimately show ?thesis using clear_empties[of e s] by blast
qed

text \<open>
  C2, as the code has it: for every sequence of \<open>get_tagsfile\<close> calls on a new cache in
  which no call was interrupted by a compression that raised during a demotion,
  afterwards the entries of each sector sum to at most the sector's capacity, or the
  sector holds a single entry larger than its capacity. Calls that raise for another
  reason (the assertion, a failed creation, a failed decompression) are allowed in the
  sequence. Every prefix of a sequence is a sequence, so this holds after each call.
\<close>

theorem capacity_respected_unless_compression_raises:
  "no_aborted_compression xs (CTagsCache umax cmax) \<Longrightarrow>
   within_capacity umax (uncompressed_cache (fst (get_all xs (CTagsCache umax cmax)))) \<and>
   within_capacity cmax (compressed_cache (fst (get_all xs (CTagsCache umax cmax))))"
proof -
  assume a: "no_aborted_compression xs (CTagsCache umax cmax)"
  have "capacity_respected (CTagsCache umax cmax)"
    by (simp add: capacity_respected_def within_capacity_def CTagsCache_def)
  moreover have "uncompressed_max_bytes (CTagsCache umax cmax) = umax"
    "compressed_max_bytes (CTagsCache umax cmax) = cmax" by (simp_all add: CTagsCache_def)
  ultimately show ?thesis using get_all_capacity_unless_aborted[OF _ a]
    by (clarsimp simp: capacity_respected_def)
qed

text \<open>
  A sequence with a call that raises: the third call fails to decompress A, and both
  sectors stay within 10 and 100 bytes.
\<close>

theorem capacity_respected_unless_compression_raises_witness:
  "no_aborted_compression unreadable_requests (CTagsCache 10 100) \<and>
   snd (get_all unreadable_requests (CTagsCache 10 100)) = [Inr 0, Inr 1, Inl IOFailure, Inr 1] \<and>
   within_capacity 10 (uncompressed_cache (fst (get_all unreadable_requests (CTagsCache 10 100)))) \<and>
   within_capacity 100 (compressed_cache (fst (get_all unreadable_requests (CTagsCache 10 100))))"
proof -
  have h: "no_aborted_compression unreadable_requests (CTagsCache 10 100)"
    by code_simp
  have r: "snd (get_all unreadable_requests (CTagsCache 10 100))
      = [Inr 0, Inr 1, Inl IOFailure, Inr 1]" by code_simp
  from capacity_respected_unless_compression_raises[OF h] h r show ?thesis by simp
qed

end
